theory Spec2Isabelle
  imports Main "HOL-Library.Multiset"
begin

section \<open>Values, errors and outcomes\<close>

text \<open>
  Vertex ids are JavaScript strings. A payload (the \<^verbatim>\<open>data\<close> of a vertex, the shared
  \<^verbatim>\<open>results\<close> object) is a plain object, modelled by the list of its own properties;
  \<^verbatim>\<open>{}\<close> is the empty list.
\<close>

type_synonym vid = string
type_synonym payload = "(string \<times> string) list"

text \<open>\<^verbatim>\<open>VALID_STATES\<close>: the five state names, in the order of the source.\<close>

datatype vstate = NOT_READY | READY | IN_PROGRESS | SUCCESS | FAIL

definition VALID_STATES :: "string list" where
  "VALID_STATES = [''NOT_READY'', ''READY'', ''IN_PROGRESS'', ''SUCCESS'', ''FAIL'']"

fun stateName :: "vstate \<Rightarrow> string" where
  "stateName NOT_READY = ''NOT_READY''"
| "stateName READY = ''READY''"
| "stateName IN_PROGRESS = ''IN_PROGRESS''"
| "stateName SUCCESS = ''SUCCESS''"
| "stateName FAIL = ''FAIL''"

text \<open>
  \<^verbatim>\<open>VALID_STATES.indexOf(s) > -1\<close>, together with the state the name stands for;
  \<open>None\<close> is the failed test.
\<close>

definition parseState :: "string \<Rightarrow> vstate option" where
  "parseState s =
     (if s = ''NOT_READY'' then Some NOT_READY
      else if s = ''READY'' then Some READY
      else if s = ''IN_PROGRESS'' then Some IN_PROGRESS
      else if s = ''SUCCESS'' then Some SUCCESS
      else if s = ''FAIL'' then Some FAIL
      else None)"

text \<open>
  Every \<^verbatim>\<open>throw new Error(name, ...)\<close> of the source, and the \<^verbatim>\<open>TypeError\<close> that
  JavaScript raises when a property of \<^verbatim>\<open>undefined\<close> is read or when something that is
  not a function is called.
\<close>

datatype error =
    DuplicateVertexID
  | StartVertexNotFound
  | EndVertexNotFound
  | LoopsNotAllowed
  | EdgeAlreadyExists
  | VertexNotFound
  | EdgeDoesntExist
  | InvalidState
  | TypeError

text \<open>
  A call that mutates state either returns a value or throws; in both cases the state
  reached so far stays behind (no operation of the source rolls anything back).
\<close>

datatype ('a, 's) outcome = Return 'a 's | Throw error 's

fun stateOf :: "('a, 's) outcome \<Rightarrow> 's" where
  "stateOf (Return a s) = s"
| "stateOf (Throw e s) = s"

fun returned :: "('a, 's) outcome \<Rightarrow> bool" where
  "returned (Return a s) = True"
| "returned (Throw e s) = False"

text \<open>Sequencing: the second call runs only if the first returned.\<close>

fun andThen :: "('a, 's) outcome \<Rightarrow> ('s \<Rightarrow> ('b, 's) outcome) \<Rightarrow> ('b, 's) outcome" where
  "andThen (Return a s) f = f s"
| "andThen (Throw e s) f = Throw e s"

text \<open>\<^verbatim>\<open>xs.indexOf(x)\<close>: the first position of \<open>x\<close>; \<open>None\<close> stands for \<^verbatim>\<open>-1\<close>.\<close>

fun indexOf :: "'a list \<Rightarrow> 'a \<Rightarrow> nat option" where
  "indexOf [] x = None"
| "indexOf (y # ys) x = (if y = x then Some 0 else map_option Suc (indexOf ys x))"

text \<open>\<^verbatim>\<open>xs.splice(i, 1)\<close>: remove the element at position \<open>i\<close>.\<close>

definition splice1 :: "nat \<Rightarrow> 'a list \<Rightarrow> 'a list" where
  "splice1 i xs = take i xs @ drop (Suc i) xs"

section \<open>Vertex (vertex.js)\<close>

text \<open>The fields \<^verbatim>\<open>id\<close>, \<^verbatim>\<open>state\<close> and \<^verbatim>\<open>data\<close> of a vertex object.\<close>

record vertex =
  v_id :: vid
  v_state :: vstate
  v_data :: payload

text \<open>
  \<^verbatim>\<open>Vertex.setState(newState)\<close>. The first argument is what
  \<^verbatim>\<open>self.parent.parent.isRunning()\<close> answers. The result is the updated vertex and
  whether the start signal \<^verbatim>\<open>pkGuid + ":start"\<close> was emitted.
\<close>

definition Vertex_setState :: "bool \<Rightarrow> vertex \<Rightarrow> string \<Rightarrow> error + (vertex \<times> bool)" where
  "Vertex_setState running v newState =
     (case parseState newState of
        None \<Rightarrow> Inl InvalidState
      | Some s \<Rightarrow> Inr (v\<lparr>v_state := s\<rparr>, s = IN_PROGRESS \<and> running))"

section \<open>Digraph (digraph.js)\<close>

text \<open>
  The five arrays of a digraph. The three vertex arrays are kept in parallel, and so are
  the two edge arrays: edge number \<open>i\<close> goes from \<open>startVertexIdArray ! i\<close> to
  \<open>endVertexIdArray ! i\<close>.
\<close>

record digraph =
  vertexArray :: "vertex list"
  vertexIdArray :: "vid list"
  vertexStateArray :: "vstate list"
  startVertexIdArray :: "vid list"
  endVertexIdArray :: "vid list"

definition emptyDigraph :: digraph where
  "emptyDigraph = \<lparr>vertexArray = [], vertexIdArray = [], vertexStateArray = [],
     startVertexIdArray = [], endVertexIdArray = []\<rparr>"

text \<open>The edges in array order, as the loops over \<open>i < numEdges\<close> see them.\<close>

definition edgeList :: "digraph \<Rightarrow> (vid \<times> vid) list" where
  "edgeList g = zip (startVertexIdArray g) (endVertexIdArray g)"

definition hasVertexId :: "digraph \<Rightarrow> vid \<Rightarrow> bool" where
  "hasVertexId g vertexId = (indexOf (vertexIdArray g) vertexId \<noteq> None)"

definition addVertex :: "digraph \<Rightarrow> vid \<Rightarrow> payload \<Rightarrow> (vertex, digraph) outcome" where
  "addVertex g ident d =
     (if indexOf (vertexIdArray g) ident \<noteq> None then Throw DuplicateVertexID g
      else
        let newVertex = \<lparr>v_id = ident, v_state = NOT_READY, v_data = d\<rparr>
        in Return newVertex
             (g\<lparr>vertexIdArray := vertexIdArray g @ [ident],
                vertexStateArray := vertexStateArray g @ [NOT_READY],
                vertexArray := vertexArray g @ [newVertex]\<rparr>))"

definition addEdge :: "digraph \<Rightarrow> vid \<Rightarrow> vid \<Rightarrow> (unit, digraph) outcome" where
  "addEdge g startVertexId endVertexId =
     (if indexOf (vertexIdArray g) startVertexId = None then Throw StartVertexNotFound g
      else if indexOf (vertexIdArray g) endVertexId = None then Throw EndVertexNotFound g
      else if startVertexId = endVertexId then Throw LoopsNotAllowed g
      else if (startVertexId, endVertexId) \<in> set (edgeList g) then Throw EdgeAlreadyExists g
      else Return ()
             (g\<lparr>startVertexIdArray := startVertexIdArray g @ [startVertexId],
                endVertexIdArray := endVertexIdArray g @ [endVertexId]\<rparr>))"

text \<open>
  \<^verbatim>\<open>vertexIdArray.index(vertexId)\<close>: arrays have no method \<^verbatim>\<open>index\<close>, so the call is a
  call of \<^verbatim>\<open>undefined\<close> and raises \<^verbatim>\<open>TypeError\<close>, whatever the array and the id.
\<close>

definition array_index :: "'a list \<Rightarrow> 'a \<Rightarrow> error + nat option" where
  "array_index xs x = Inl TypeError"

text \<open>
  The loop of \<^verbatim>\<open>removeVertex\<close> over the edges, from the last to the first, splicing
  out every edge that starts or ends at the vertex; the first argument counts the
  positions still to visit.
\<close>

fun removeIncidentEdges :: "nat \<Rightarrow> vid \<Rightarrow> digraph \<Rightarrow> digraph" where
  "removeIncidentEdges 0 vertexId g = g"
| "removeIncidentEdges (Suc i) vertexId g =
     removeIncidentEdges i vertexId
       (if i < length (startVertexIdArray g) \<and> i < length (endVertexIdArray g) \<and>
           (startVertexIdArray g ! i = vertexId \<or> endVertexIdArray g ! i = vertexId)
        then g\<lparr>startVertexIdArray := splice1 i (startVertexIdArray g),
               endVertexIdArray := splice1 i (endVertexIdArray g)\<rparr>
        else g)"

definition removeVertex :: "digraph \<Rightarrow> vid \<Rightarrow> (unit, digraph) outcome" where
  "removeVertex g vertexId =
     (case array_index (vertexIdArray g) vertexId of
        Inl e \<Rightarrow> Throw e g
      | Inr None \<Rightarrow> Throw VertexNotFound g
      | Inr (Some _) \<Rightarrow>
          (case indexOf (vertexIdArray g) vertexId of
             None \<Rightarrow> Return () (removeIncidentEdges (length (startVertexIdArray g)) vertexId g)
           | Some vertexIndex \<Rightarrow>
               Return ()
                 (removeIncidentEdges (length (startVertexIdArray g)) vertexId
                    (g\<lparr>vertexIdArray := splice1 vertexIndex (vertexIdArray g),
                       vertexStateArray := splice1 vertexIndex (vertexStateArray g),
                       vertexArray := splice1 vertexIndex (vertexArray g)\<rparr>))))"

definition removeEdge :: "digraph \<Rightarrow> vid \<Rightarrow> vid \<Rightarrow> (unit, digraph) outcome" where
  "removeEdge g startVertexId endVertexId =
     (case indexOf (edgeList g) (startVertexId, endVertexId) of
        None \<Rightarrow> Throw EdgeDoesntExist g
      | Some edgeIndex \<Rightarrow>
          Return ()
            (g\<lparr>startVertexIdArray := splice1 edgeIndex (startVertexIdArray g),
               endVertexIdArray := splice1 edgeIndex (endVertexIdArray g)\<rparr>))"

text \<open>
  \<^verbatim>\<open>vertexArray[vertexIdArray.indexOf(x)]\<close>, as the adjacency queries read it; \<open>None\<close>
  is \<^verbatim>\<open>undefined\<close> (the id is not found, so the index is \<^verbatim>\<open>-1\<close>).
\<close>

definition vertexAt :: "digraph \<Rightarrow> vid \<Rightarrow> vertex option" where
  "vertexAt g x =
     (case indexOf (vertexIdArray g) x of
        None \<Rightarrow> None
      | Some i \<Rightarrow> if i < length (vertexArray g) then Some (vertexArray g ! i) else None)"

definition getChildVertices :: "digraph \<Rightarrow> vid \<Rightarrow> vertex option list" where
  "getChildVertices g parentVertexId =
     map (\<lambda>(s, e). vertexAt g e) (filter (\<lambda>(s, e). s = parentVertexId) (edgeList g))"

definition getParentVertices :: "digraph \<Rightarrow> vid \<Rightarrow> vertex option list" where
  "getParentVertices g childVertexId =
     map (\<lambda>(s, e). vertexAt g s) (filter (\<lambda>(s, e). e = childVertexId) (edgeList g))"

text \<open>
  \<^verbatim>\<open>getParentVertexIds\<close> reads \<^verbatim>\<open>.id\<close> of each parent vertex while it collects them,
  which throws \<^verbatim>\<open>TypeError\<close> at the first parent that is \<^verbatim>\<open>undefined\<close>.
\<close>

fun idsOf :: "vertex option list \<Rightarrow> error + vid list" where
  "idsOf [] = Inr []"
| "idsOf (None # vs) = Inl TypeError"
| "idsOf (Some v # vs) = (case idsOf vs of Inl e \<Rightarrow> Inl e | Inr ids \<Rightarrow> Inr (v_id v # ids))"

definition getParentVertexIds :: "digraph \<Rightarrow> vid \<Rightarrow> error + vid list" where
  "getParentVertexIds g childVertexId = idsOf (getParentVertices g childVertexId)"

definition getChildVertexIds :: "digraph \<Rightarrow> vid \<Rightarrow> error + vid list" where
  "getChildVertexIds g parentVertexId = idsOf (getChildVertices g parentVertexId)"

definition indegree :: "digraph \<Rightarrow> vid \<Rightarrow> nat" where
  "indegree g vertexId = length (filter (\<lambda>(s, e). e = vertexId) (edgeList g))"

definition outdegree :: "digraph \<Rightarrow> vid \<Rightarrow> nat" where
  "outdegree g vertexId = length (filter (\<lambda>(s, e). s = vertexId) (edgeList g))"

definition getVerticesWithIndegree0 :: "digraph \<Rightarrow> vertex list" where
  "getVerticesWithIndegree0 g =
     filter (\<lambda>v. indexOf (endVertexIdArray g) (v_id v) = None) (vertexArray g)"

definition getVertex :: "digraph \<Rightarrow> vid \<Rightarrow> error + vertex" where
  "getVertex g vertexId =
     (case indexOf (vertexIdArray g) vertexId of
        None \<Rightarrow> Inl VertexNotFound
      | Some vertexIndex \<Rightarrow>
          if vertexIndex < length (vertexArray g) then Inr (vertexArray g ! vertexIndex)
          else Inl TypeError)"

definition getVertexIds :: "digraph \<Rightarrow> vid list" where
  "getVertexIds g = take (length (vertexArray g)) (vertexIdArray g)"

definition vertexCount :: "digraph \<Rightarrow> nat" where
  "vertexCount g = length (vertexArray g)"

definition edgeCount :: "digraph \<Rightarrow> nat" where
  "edgeCount g = length (startVertexIdArray g)"

text \<open>
  \<^verbatim>\<open>getEdgeInfo\<close> and \<^verbatim>\<open>setEdgeInfo\<close>: \<^verbatim>\<open>clone\<close> copies an array element by element,
  so the copy is the same list.
\<close>

definition getEdgeInfo :: "digraph \<Rightarrow> vid list \<times> vid list" where
  "getEdgeInfo g = (startVertexIdArray g, endVertexIdArray g)"

definition setEdgeInfo :: "digraph \<Rightarrow> vid list \<times> vid list \<Rightarrow> digraph" where
  "setEdgeInfo g edgeInfo = g\<lparr>startVertexIdArray := fst edgeInfo, endVertexIdArray := snd edgeInfo\<rparr>"

text \<open>
  The inner loop of \<^verbatim>\<open>topologicalSort\<close>, over \<open>childNodes\<close>: remove the edge from \<open>n\<close>
  to the child \<open>m\<close>, and push \<open>m\<close> on \<open>S\<close> if no edge enters it any more. Reading
  \<^verbatim>\<open>m.id\<close> of an \<^verbatim>\<open>undefined\<close> child throws \<^verbatim>\<open>TypeError\<close>. The value returned is \<open>S\<close>.
\<close>

fun removeChildEdges ::
  "vertex option list \<Rightarrow> vertex \<Rightarrow> digraph \<Rightarrow> vertex list \<Rightarrow> (vertex list, digraph) outcome" where
  "removeChildEdges [] n g S = Return S g"
| "removeChildEdges (None # childNodes) n g S = Throw TypeError g"
| "removeChildEdges (Some m # childNodes) n g S =
     (case removeEdge g (v_id n) (v_id m) of
        Throw e g' \<Rightarrow> Throw e g'
      | Return _ g' \<Rightarrow>
          removeChildEdges childNodes n g'
            (if indegree g' (v_id m) = 0 then S @ [m] else S))"

lemma length_splice1: "i < length xs \<Longrightarrow> Suc (length (splice1 i xs)) = length xs"
  by (simp add: splice1_def)

lemma indexOf_None_iff: "indexOf xs x = None \<longleftrightarrow> x \<notin> set xs"
  by (induction xs) auto

lemma indexOf_Some_nth: "indexOf xs x = Some i \<Longrightarrow> i < length xs \<and> xs ! i = x"
  by (induction xs arbitrary: i) (auto split: if_splits)

lemma removeEdge_edgeCount:
  assumes "removeEdge g s e = Return u g'"
  shows "Suc (length (startVertexIdArray g')) = length (startVertexIdArray g)"
proof -
  from assms obtain i where i: "indexOf (edgeList g) (s, e) = Some i"
    and g': "g' = g\<lparr>startVertexIdArray := splice1 i (startVertexIdArray g),
                    endVertexIdArray := splice1 i (endVertexIdArray g)\<rparr>"
    by (auto simp: removeEdge_def split: option.splits)
  from indexOf_Some_nth [OF i] have "i < length (startVertexIdArray g)"
    by (simp add: edgeList_def)
  then show ?thesis by (simp add: g' length_splice1)
qed

lemma removeChildEdges_measure:
  "removeChildEdges ms n g S = Return S' g' \<Longrightarrow>
   length (startVertexIdArray g') + length S' \<le> length (startVertexIdArray g) + length S"
proof (induction ms arbitrary: g S)
  case Nil
  then show ?case by simp
next
  case (Cons m ms)
  show ?case
  proof (cases m)
    case None
    with Cons.prems show ?thesis by simp
  next
    case (Some mv)
    with Cons.prems obtain u g1 where r: "removeEdge g (v_id n) (v_id mv) = Return u g1"
      and rest: "removeChildEdges ms n g1 (if indegree g1 (v_id mv) = 0 then S @ [mv] else S)
                 = Return S' g'"
      by (auto split: outcome.splits)
    from Cons.IH [OF rest] removeEdge_edgeCount [OF r] show ?thesis
      by (auto split: if_splits)
  qed
qed

text \<open>
  The \<^verbatim>\<open>while (S.length > 0)\<close> loop: pop \<open>n\<close> from the end of \<open>S\<close>, push it on \<open>L\<close>,
  and run the inner loop over the children of \<open>n\<close>.
\<close>

function kahnLoop :: "digraph \<Rightarrow> vertex list \<Rightarrow> vertex list \<Rightarrow> (vertex list, digraph) outcome" where
  "kahnLoop g S L =
     (if S = [] then Return L g
      else
        (case removeChildEdges (getChildVertices g (v_id (last S))) (last S) g (butlast S) of
           Throw e g' \<Rightarrow> Throw e g'
         | Return S' g' \<Rightarrow> kahnLoop g' S' (L @ [last S])))"
  by pat_completeness auto
termination
proof (relation "measure (\<lambda>(g, S, L). length (startVertexIdArray g) + length S)")
  show "wf (measure (\<lambda>(g, S, L). length (startVertexIdArray g) + length S))"
    by simp
next
  fix g :: digraph and S L S' :: "vertex list" and g' :: digraph
  assume "S \<noteq> []"
    and "removeChildEdges (getChildVertices g (v_id (last S))) (last S) g (butlast S) = Return S' g'"
  then show "((g', S', L @ [last S]), (g, S, L))
      \<in> measure (\<lambda>(g, S, L). length (startVertexIdArray g) + length S)"
    using removeChildEdges_measure [of "getChildVertices g (v_id (last S))" "last S" g "butlast S" S' g']
    by (cases S rule: rev_cases) auto
qed

declare kahnLoop.simps [simp del]

text \<open>
  \<^verbatim>\<open>topologicalSort\<close>: the edge arrays are saved first and put back on both return paths.
\<close>

definition topologicalSort :: "digraph \<Rightarrow> (vertex list, digraph) outcome" where
  "topologicalSort g =
     (let edgeInfo = getEdgeInfo g in
      case kahnLoop g (getVerticesWithIndegree0 g) [] of
        Throw e g' \<Rightarrow> Throw e g'
      | Return L g' \<Rightarrow>
          if edgeCount g' > 0 then Return [] (setEdgeInfo g' edgeInfo)
          else Return L (setEdgeInfo g' edgeInfo))"

text \<open>
  The representation invariant of a digraph: the vertex arrays are parallel, ids are
  unique, the edge arrays are parallel and every edge joins two vertices of the graph.
  The constructor establishes it and the mutators keep it.
\<close>

definition wf_digraph :: "digraph \<Rightarrow> bool" where
  "wf_digraph g \<longleftrightarrow>
     vertexIdArray g = map v_id (vertexArray g) \<and>
     length (vertexStateArray g) = length (vertexArray g) \<and>
     distinct (vertexIdArray g) \<and>
     length (startVertexIdArray g) = length (endVertexIdArray g) \<and>
     set (startVertexIdArray g) \<subseteq> set (vertexIdArray g) \<and>
     set (endVertexIdArray g) \<subseteq> set (vertexIdArray g)"

section \<open>PigeonKeeper (pigeonkeeper.js)\<close>

text \<open>
  The error object handed to \<^verbatim>\<open>finalCallback\<close>: \<^verbatim>\<open>{name: "State Failed", message: id}\<close>
  or \<^verbatim>\<open>{name: "Failed States", message: ids}\<close>.
\<close>

datatype pkError = StateFailed vid | FailedStates "vid list"

text \<open>
  The variables of the closure of a PigeonKeeper. \<open>topologicalSortOrder\<close> is \<open>None\<close> while
  the variable is still \<^verbatim>\<open>undefined\<close>. Two logs record what leaves the scheduler:
  \<open>finalCallbackCalls\<close> has one entry, the two arguments, for every call of
  \<^verbatim>\<open>finalCallback\<close>; \<open>startSignals\<close> has the id of the vertex for every start signal that a
  vertex emits. Tasks answer later, through \<^verbatim>\<open>setState\<close>; writing to the log is left out.
  The two counters are integers.
\<close>

record pk =
  graph :: digraph
  finalCallbackExecuted :: bool
  quitOnFailure :: bool
  isCurrentlyRunning :: bool
  maxNumberOfRunningProcesses :: int
  numberOfRunningProcesses :: int
  topologicalSortOrder :: "vid list option"
  results :: payload
  finalCallbackCalls :: "(pkError option \<times> payload) list"
  startSignals :: "vid list"

text \<open>
  \<^verbatim>\<open>graph.getVertex(vertexId).setState(newState)\<close>: the lookup of \<^verbatim>\<open>getVertex\<close>, then
  \<^verbatim>\<open>Vertex.setState\<close> on the object found, which is the element of \<open>vertexArray\<close> at that
  index.
\<close>

definition setVertexState :: "pk \<Rightarrow> vid \<Rightarrow> string \<Rightarrow> (unit, pk) outcome" where
  "setVertexState p vertexId newState =
     (case indexOf (vertexIdArray (graph p)) vertexId of
        None \<Rightarrow> Throw VertexNotFound p
      | Some vertexIndex \<Rightarrow>
          if \<not> vertexIndex < length (vertexArray (graph p)) then Throw TypeError p
          else
            (case Vertex_setState (isCurrentlyRunning p) (vertexArray (graph p) ! vertexIndex) newState of
               Inl e \<Rightarrow> Throw e p
             | Inr (v', emitted) \<Rightarrow>
                 Return ()
                   (p\<lparr>graph := (graph p)\<lparr>vertexArray := (vertexArray (graph p))[vertexIndex := v']\<rparr>,
                      startSignals := (if emitted then startSignals p @ [v_id v'] else startSignals p)\<rparr>)))"

text \<open>\<^verbatim>\<open>initializeStates\<close>: every vertex of \<^verbatim>\<open>getVertexIds()\<close> is set to NOT_READY.\<close>

fun setStatesOf :: "vid list \<Rightarrow> string \<Rightarrow> pk \<Rightarrow> (unit, pk) outcome" where
  "setStatesOf [] newState p = Return () p"
| "setStatesOf (vertexId # vertexIds) newState p =
     andThen (setVertexState p vertexId newState) (setStatesOf vertexIds newState)"

definition initializeStates :: "pk \<Rightarrow> (unit, pk) outcome" where
  "initializeStates p = setStatesOf (getVertexIds (graph p)) ''NOT_READY'' p"

text \<open>
  \<^verbatim>\<open>topologicalSortOrder[i]\<close>. Indexing \<^verbatim>\<open>undefined\<close> throws \<^verbatim>\<open>TypeError\<close>; an index past
  the end reads \<^verbatim>\<open>undefined\<close>, which is the id of no vertex, so the \<^verbatim>\<open>getVertex\<close> that
  receives it throws Vertex Not Found.
\<close>

definition topoEntry :: "vid list option \<Rightarrow> nat \<Rightarrow> error + vid" where
  "topoEntry order i =
     (case order of
        None \<Rightarrow> Inl TypeError
      | Some ids \<Rightarrow> if i < length ids then Inr (ids ! i) else Inl VertexNotFound)"

definition topoEntries :: "pk \<Rightarrow> (error + vid) list" where
  "topoEntries p = map (topoEntry (topologicalSortOrder p)) [0..<vertexCount (graph p)]"

text \<open>The loop of \<^verbatim>\<open>updateStates\<close> over the parents of a vertex, with its two flags.\<close>

fun parentFlags :: "digraph \<Rightarrow> vid list \<Rightarrow> bool \<times> bool \<Rightarrow> error + bool \<times> bool" where
  "parentFlags g [] flags = Inr flags"
| "parentFlags g (parent # parents) (allParentsAreSuccess, someParentFailed) =
     (case getVertex g parent of
        Inl e \<Rightarrow> Inl e
      | Inr currentParent \<Rightarrow>
          parentFlags g parents
            (allParentsAreSuccess \<and> v_state currentParent = SUCCESS,
             someParentFailed \<or> v_state currentParent = FAIL))"

text \<open>The body of the first loop of \<^verbatim>\<open>updateStates\<close>: the state pushed on \<open>newStates\<close>.\<close>

definition computeNewState :: "digraph \<Rightarrow> vertex \<Rightarrow> error + vstate" where
  "computeNewState g currentVertex =
     (if v_state currentVertex = NOT_READY then
        if indegree g (v_id currentVertex) = 0 then Inr READY
        else
          (case getParentVertexIds g (v_id currentVertex) of
             Inl e \<Rightarrow> Inl e
           | Inr parents \<Rightarrow>
               (case parentFlags g parents (True, False) of
                  Inl e \<Rightarrow> Inl e
                | Inr (allParentsAreSuccess, someParentFailed) \<Rightarrow>
                    if allParentsAreSuccess then Inr READY
                    else if someParentFailed then Inr FAIL
                    else Inr NOT_READY))
      else Inr (v_state currentVertex))"

text \<open>The first loop of \<^verbatim>\<open>updateStates\<close>: no state changes, \<open>newStates\<close> is built.\<close>

fun calculateNewStates :: "digraph \<Rightarrow> (error + vid) list \<Rightarrow> error + vstate list" where
  "calculateNewStates g [] = Inr []"
| "calculateNewStates g (Inl e # entries) = Inl e"
| "calculateNewStates g (Inr vertexId # entries) =
     (case getVertex g vertexId of
        Inl e \<Rightarrow> Inl e
      | Inr currentVertex \<Rightarrow>
          (case computeNewState g currentVertex of
             Inl e \<Rightarrow> Inl e
           | Inr s \<Rightarrow>
               (case calculateNewStates g entries of
                  Inl e \<Rightarrow> Inl e
                | Inr newStates \<Rightarrow> Inr (s # newStates))))"

text \<open>The second loop of \<^verbatim>\<open>updateStates\<close>: the new states are written, one vertex at a time.\<close>

fun transferNewStates :: "((error + vid) \<times> vstate) list \<Rightarrow> pk \<Rightarrow> (unit, pk) outcome" where
  "transferNewStates [] p = Return () p"
| "transferNewStates ((Inl e, s) # rest) p = Throw e p"
| "transferNewStates ((Inr vertexId, s) # rest) p =
     andThen (setVertexState p vertexId (stateName s)) (transferNewStates rest)"

definition updateStates :: "pk \<Rightarrow> (unit, pk) outcome" where
  "updateStates p =
     (case calculateNewStates (graph p) (topoEntries p) of
        Inl e \<Rightarrow> Throw e p
      | Inr newStates \<Rightarrow> transferNewStates (zip (topoEntries p) newStates) p)"

text \<open>\<^verbatim>\<open>startReadyProcesses\<close>, as a loop over \<^verbatim>\<open>getVertexIds()\<close>.\<close>

fun startReady :: "vid list \<Rightarrow> pk \<Rightarrow> (unit, pk) outcome" where
  "startReady [] p = Return () p"
| "startReady (vertexId # vertexIds) p =
     (case getVertex (graph p) vertexId of
        Inl e \<Rightarrow> Throw e p
      | Inr v \<Rightarrow>
          if v_state v = READY then
            if maxNumberOfRunningProcesses p > 0 \<and>
               numberOfRunningProcesses p < maxNumberOfRunningProcesses p
            then
              andThen
                (setVertexState (p\<lparr>numberOfRunningProcesses := numberOfRunningProcesses p + 1\<rparr>)
                   vertexId ''IN_PROGRESS'')
                (startReady vertexIds)
            else if maxNumberOfRunningProcesses p \<le> 0 then
              andThen
                (setVertexState (p\<lparr>numberOfRunningProcesses := numberOfRunningProcesses p + 1\<rparr>)
                   vertexId ''IN_PROGRESS'')
                (startReady vertexIds)
            else startReady vertexIds p
          else startReady vertexIds p)"

definition startReadyProcesses :: "pk \<Rightarrow> (unit, pk) outcome" where
  "startReadyProcesses p = startReady (getVertexIds (graph p)) p"

definition vertexIdsFromArray :: "vertex list \<Rightarrow> vid list" where
  "vertexIdsFromArray arr = map v_id arr"

text \<open>
  The loop of \<^verbatim>\<open>setState\<close> over all vertices that computes \<open>allStatesSuccessful\<close>,
  \<open>someStateFailed\<close> and \<open>allStatesFinal\<close>, in this order.
\<close>

fun statePredicates :: "digraph \<Rightarrow> vid list \<Rightarrow> bool \<times> bool \<times> bool \<Rightarrow> error + bool \<times> bool \<times> bool" where
  "statePredicates g [] flags = Inr flags"
| "statePredicates g (vertexId # vertexIds) (allStatesSuccessful, someStateFailed, allStatesFinal) =
     (case getVertex g vertexId of
        Inl e \<Rightarrow> Inl e
      | Inr currentVertex \<Rightarrow>
          statePredicates g vertexIds
            (allStatesSuccessful \<and> v_state currentVertex = SUCCESS,
             someStateFailed \<or> v_state currentVertex = FAIL,
             allStatesFinal \<and> (v_state currentVertex = SUCCESS \<or> v_state currentVertex = FAIL)))"

text \<open>
  One bucket of \<^verbatim>\<open>overallState()\<close>: the ids, in the order of \<^verbatim>\<open>getVertexIds()\<close>, of the
  vertices in a given state. \<^verbatim>\<open>overallState().FAIL\<close> is the bucket of FAIL.
\<close>

fun stateBucket :: "digraph \<Rightarrow> vstate \<Rightarrow> vid list \<Rightarrow> error + vid list" where
  "stateBucket g s [] = Inr []"
| "stateBucket g s (vertexId # vertexIds) =
     (case getVertex g vertexId of
        Inl e \<Rightarrow> Inl e
      | Inr v \<Rightarrow>
          (case stateBucket g s vertexIds of
             Inl e \<Rightarrow> Inl e
           | Inr bucket \<Rightarrow> Inr (if v_state v = s then vertexId # bucket else bucket)))"

text \<open>
  The guarded block that calls \<^verbatim>\<open>finalCallback\<close>; the source repeats it six times, with
  three different first arguments: \<^verbatim>\<open>null\<close>, the Failed States error built from
  \<^verbatim>\<open>overallState().FAIL\<close>, and the State Failed error with the id of the vertex.
\<close>

definition finalCallbackSuccess :: "pk \<Rightarrow> (unit, pk) outcome" where
  "finalCallbackSuccess p =
     (if \<not> finalCallbackExecuted p then
        Return ()
          (p\<lparr>finalCallbackExecuted := True,
             finalCallbackCalls := finalCallbackCalls p @ [(None, results p)]\<rparr>)
      else Return () p)"

definition finalCallbackFailedStates :: "pk \<Rightarrow> (unit, pk) outcome" where
  "finalCallbackFailedStates p =
     (if \<not> finalCallbackExecuted p then
        (case stateBucket (graph p) FAIL (getVertexIds (graph p)) of
           Inl e \<Rightarrow> Throw e (p\<lparr>finalCallbackExecuted := True\<rparr>)
         | Inr failed \<Rightarrow>
             Return ()
               (p\<lparr>finalCallbackExecuted := True,
                  finalCallbackCalls :=
                    finalCallbackCalls p @ [(Some (FailedStates failed), results p)]\<rparr>))
      else Return () p)"

definition finalCallbackStateFailed :: "pk \<Rightarrow> vid \<Rightarrow> (unit, pk) outcome" where
  "finalCallbackStateFailed p vertexId =
     (if \<not> finalCallbackExecuted p then
        Return ()
          (p\<lparr>finalCallbackExecuted := True,
             finalCallbackCalls :=
               finalCallbackCalls p @ [(Some (StateFailed vertexId), results p)]\<rparr>)
      else Return () p)"

text \<open>The branch \<^verbatim>\<open>newState == "SUCCESS"\<close> of \<^verbatim>\<open>setState\<close>, after the state is written.\<close>

definition setStateSuccess :: "pk \<Rightarrow> (unit, pk) outcome" where
  "setStateSuccess p =
     andThen (updateStates (p\<lparr>numberOfRunningProcesses := numberOfRunningProcesses p - 1\<rparr>))
       (\<lambda>p. case statePredicates (graph p) (getVertexIds (graph p)) (True, False, True) of
          Inl e \<Rightarrow> Throw e p
        | Inr (allStatesSuccessful, someStateFailed, allStatesFinal) \<Rightarrow>
            if allStatesFinal then
              if allStatesSuccessful then finalCallbackSuccess (p\<lparr>isCurrentlyRunning := False\<rparr>)
              else finalCallbackFailedStates (p\<lparr>isCurrentlyRunning := False\<rparr>)
            else if allStatesSuccessful then finalCallbackSuccess p
            else if someStateFailed then
              if quitOnFailure p then finalCallbackFailedStates (p\<lparr>isCurrentlyRunning := False\<rparr>)
              else updateStates p
            else startReadyProcesses p)"

text \<open>The branch \<^verbatim>\<open>newState == "FAIL"\<close> of \<^verbatim>\<open>setState\<close>, after the state is written.\<close>

definition setStateFail :: "pk \<Rightarrow> vid \<Rightarrow> (unit, pk) outcome" where
  "setStateFail p vertexId =
     andThen (updateStates (p\<lparr>numberOfRunningProcesses := numberOfRunningProcesses p - 1\<rparr>))
       (\<lambda>p. case statePredicates (graph p) (getVertexIds (graph p)) (True, False, True) of
          Inl e \<Rightarrow> Throw e p
        | Inr (allStatesSuccessful, someStateFailed, allStatesFinal) \<Rightarrow>
            if quitOnFailure p then finalCallbackStateFailed (p\<lparr>isCurrentlyRunning := False\<rparr>) vertexId
            else
              andThen (updateStates p)
                (\<lambda>p. if allStatesFinal \<and> someStateFailed then finalCallbackFailedStates p
                     else Return () p))"

text \<open>\<^verbatim>\<open>PigeonKeeper.setState(vertexId, newState)\<close>.\<close>

definition setState :: "pk \<Rightarrow> vid \<Rightarrow> string \<Rightarrow> (unit, pk) outcome" where
  "setState p vertexId newState =
     (if hasVertexId (graph p) vertexId then
        if parseState newState \<noteq> None then
          andThen (setVertexState p vertexId newState)
            (\<lambda>p. if newState = ''SUCCESS'' then setStateSuccess p
                 else if newState = ''FAIL'' then setStateFail p vertexId
                 else Return () p)
        else Throw InvalidState p
      else Throw VertexNotFound p)"

text \<open>\<^verbatim>\<open>PigeonKeeper.start(sharedData)\<close>.\<close>

definition start :: "pk \<Rightarrow> payload \<Rightarrow> (unit, pk) outcome" where
  "start p sharedData =
     (let p1 = p\<lparr>finalCallbackExecuted := False, results := sharedData\<rparr> in
      case topologicalSort (graph p1) of
        Throw e g' \<Rightarrow> Throw e (p1\<lparr>graph := g'\<rparr>)
      | Return L g' \<Rightarrow>
          andThen
            (andThen
               (initializeStates
                  (p1\<lparr>graph := g',
                      topologicalSortOrder := Some (vertexIdsFromArray L),
                      numberOfRunningProcesses := 0,
                      isCurrentlyRunning := True\<rparr>))
               updateStates)
            startReadyProcesses)"

text \<open>
  The constructor: an empty graph, nothing running, no order computed yet.
\<close>

definition PigeonKeeper :: "bool \<Rightarrow> int \<Rightarrow> pk" where
  "PigeonKeeper quitOnFail maxNumRunningProcesses =
     \<lparr>graph = emptyDigraph,
      finalCallbackExecuted = False,
      quitOnFailure = quitOnFail,
      isCurrentlyRunning = False,
      maxNumberOfRunningProcesses = maxNumRunningProcesses,
      numberOfRunningProcesses = 0,
      topologicalSortOrder = None,
      results = [],
      finalCallbackCalls = [],
      startSignals = []\<rparr>"

section \<open>Task events (vertex.js and the wiring of \<^verbatim>\<open>PigeonKeeper.addVertex\<close>)\<close>

text \<open>
  A task is an event emitter outside the scheduler. \<^verbatim>\<open>PigeonKeeper.addVertex\<close> subscribes,
  with \<^verbatim>\<open>once\<close>, the methods \<^verbatim>\<open>processSuccessful\<close> and \<^verbatim>\<open>processFailed\<close> of the new vertex
  to its events "success" and "error". A listener is called with \<^verbatim>\<open>this\<close> bound to the
  emitter. So the model passes \<^verbatim>\<open>this\<close> to the two methods: a reference to a vertex or to a
  service. A service object has the property \<^verbatim>\<open>data\<close> (\<open>None\<close> while it is not set) and its
  lists of one-shot listeners, each listener named by the vertex whose method it is.
\<close>

datatype objref = VertexObject vid | ServiceObject string

record service =
  service_data :: "payload option"
  successListeners :: "vid list"
  errorListeners :: "vid list"

record world =
  keeper :: pk
  services :: "string \<Rightarrow> service"

definition newService :: service where
  "newService = \<lparr>service_data = None, successListeners = [], errorListeners = []\<rparr>"

text \<open>\<^verbatim>\<open>this.data = data\<close>.\<close>

definition writeData :: "world \<Rightarrow> objref \<Rightarrow> payload \<Rightarrow> world" where
  "writeData w this d =
     (case this of
        VertexObject vertexId \<Rightarrow>
          w\<lparr>keeper := (keeper w)\<lparr>graph := (graph (keeper w))\<lparr>vertexArray :=
               map (\<lambda>v. if v_id v = vertexId then v\<lparr>v_data := d\<rparr> else v)
                 (vertexArray (graph (keeper w)))\<rparr>\<rparr>\<rparr>
      | ServiceObject name \<Rightarrow>
          w\<lparr>services := (services w)(name := (services w name)\<lparr>service_data := Some d\<rparr>)\<rparr>)"

text \<open>A call into the scheduler; the world keeps the state the call reached.\<close>

definition onKeeper :: "world \<Rightarrow> (pk \<Rightarrow> (unit, pk) outcome) \<Rightarrow> (unit, world) outcome" where
  "onKeeper w f =
     (case f (keeper w) of
        Return u p \<Rightarrow> Return u (w\<lparr>keeper := p\<rparr>)
      | Throw e p \<Rightarrow> Throw e (w\<lparr>keeper := p\<rparr>))"

text \<open>
  \<^verbatim>\<open>processSuccessful(data)\<close> and \<^verbatim>\<open>processFailed(err)\<close> of the vertex \<open>ident\<close>: the closure
  variables \<^verbatim>\<open>self\<close> and \<^verbatim>\<open>id\<close> are those of the vertex, \<^verbatim>\<open>this\<close> is the receiver.
\<close>

definition processSuccessful :: "world \<Rightarrow> vid \<Rightarrow> objref \<Rightarrow> payload \<Rightarrow> (unit, world) outcome" where
  "processSuccessful w ident this d =
     onKeeper (writeData w this d) (\<lambda>p. setState p ident ''SUCCESS'')"

definition processFailed :: "world \<Rightarrow> vid \<Rightarrow> objref \<Rightarrow> (unit, world) outcome" where
  "processFailed w ident this = onKeeper w (\<lambda>p. setState p ident ''FAIL'')"

text \<open>
  \<^verbatim>\<open>PigeonKeeper.addVertex(vertexId, service, serviceStart)\<close>: the vertex is created with
  \<^verbatim>\<open>{}\<close> as data, and the two listeners are added to the service.
\<close>

definition PigeonKeeper_addVertex :: "world \<Rightarrow> vid \<Rightarrow> string \<Rightarrow> (unit, world) outcome" where
  "PigeonKeeper_addVertex w vertexId name =
     (case addVertex (graph (keeper w)) vertexId [] of
        Throw e g \<Rightarrow> Throw e w
      | Return newVertex g \<Rightarrow>
          Return ()
            (w\<lparr>keeper := (keeper w)\<lparr>graph := g\<rparr>,
               services := (services w)(name := (services w name)
                 \<lparr>successListeners := successListeners (services w name) @ [vertexId],
                  errorListeners := errorListeners (services w name) @ [vertexId]\<rparr>)\<rparr>))"

text \<open>
  \<^verbatim>\<open>service.emit("success", data)\<close>: every listener is removed (it was added with
  \<^verbatim>\<open>once\<close>) and called with \<^verbatim>\<open>this\<close> bound to the service.
\<close>

fun callSuccessListeners :: "vid list \<Rightarrow> string \<Rightarrow> payload \<Rightarrow> world \<Rightarrow> (unit, world) outcome" where
  "callSuccessListeners [] name d w = Return () w"
| "callSuccessListeners (ident # listeners) name d w =
     andThen
       (processSuccessful
          (w\<lparr>services := (services w)(name := (services w name)
               \<lparr>successListeners := remove1 ident (successListeners (services w name))\<rparr>)\<rparr>)
          ident (ServiceObject name) d)
       (callSuccessListeners listeners name d)"

definition emitSuccess :: "world \<Rightarrow> string \<Rightarrow> payload \<Rightarrow> (unit, world) outcome" where
  "emitSuccess w name d = callSuccessListeners (successListeners (services w name)) name d w"

section \<open>Propagation as the specification words it\<close>

text \<open>
  The rule of the specification for one vertex, from the number of edges that enter it,
  its own state and the states of its parents: a state other than NOT_READY is kept; with
  no entering edge the vertex becomes READY; otherwise READY if every parent is SUCCESS,
  else FAIL if some parent is FAIL, else NOT_READY.
\<close>

definition propagationRule :: "nat \<Rightarrow> vstate \<Rightarrow> vstate list \<Rightarrow> vstate" where
  "propagationRule indeg s parentStates =
     (if s \<noteq> NOT_READY then s
      else if indeg = 0 then READY
      else if list_all (\<lambda>ps. ps = SUCCESS) parentStates then READY
      else if list_ex (\<lambda>ps. ps = FAIL) parentStates then FAIL
      else NOT_READY)"

text \<open>The states of the parents of \<open>x\<close>: one for every edge that ends at \<open>x\<close>.\<close>

definition parentStates :: "digraph \<Rightarrow> vid \<Rightarrow> vstate list" where
  "parentStates g x = [v_state v. (s, e) \<leftarrow> edgeList g, e = x, v \<leftarrow> vertexArray g, v_id v = s]"

text \<open>A vertex after one propagation, decided on the graph \<open>g\<close> alone.\<close>

definition propagated :: "digraph \<Rightarrow> vertex \<Rightarrow> vertex" where
  "propagated g v =
     v\<lparr>v_state := propagationRule (indegree g (v_id v)) (v_state v) (parentStates g (v_id v))\<rparr>"

text \<open>The state of the vertex with a given id.\<close>

definition stateIn :: "digraph \<Rightarrow> vid \<Rightarrow> vstate" where
  "stateIn g x = (case getVertex g x of Inr v \<Rightarrow> v_state v | Inl e \<Rightarrow> NOT_READY)"


section \<open>Runs of events\<close>

text \<open>
  A list of calls of \<^verbatim>\<open>setState\<close>, delivered one after the other; a call that throws
  leaves the state it reached, and the next call goes on from there.
\<close>

fun deliver :: "pk \<Rightarrow> (vid \<times> string) list \<Rightarrow> pk" where
  "deliver p [] = p"
| "deliver p ((vertexId, newState) # events) = deliver (stateOf (setState p vertexId newState)) events"







section \<open>Cycles\<close>

text \<open>A graph has a cycle when some vertex reaches itself along one or more edges.\<close>

definition hasCycle :: "digraph \<Rightarrow> bool" where
  "hasCycle g \<longleftrightarrow> \<not> acyclic (set (edgeList g))"

section \<open>Auxiliary notions of the proofs\<close>

text \<open>A scheduler with every vertex replaced by its image, and a given log of start signals.\<close>

definition updVertices :: "(vertex \<Rightarrow> vertex) \<Rightarrow> vid list \<Rightarrow> pk \<Rightarrow> pk" where
  "updVertices f sig p = p\<lparr>graph := (graph p)\<lparr>vertexArray := map f (vertexArray (graph p))\<rparr>,
                           startSignals := sig\<rparr>"

text \<open>The ids of the parents, in edge order.\<close>

definition parentIds :: "digraph \<Rightarrow> vid \<Rightarrow> vid list" where
  "parentIds g x = map fst (filter (\<lambda>(s, e). e = x) (edgeList g))"

text \<open>The flag and the log of the final callback are the same in two states.\<close>

definition sameCallbacks :: "pk \<Rightarrow> pk \<Rightarrow> bool" where
  "sameCallbacks p p' \<longleftrightarrow>
     finalCallbackExecuted p' = finalCallbackExecuted p \<and>
     finalCallbackCalls p' = finalCallbackCalls p"

text \<open>What one call may do to the flag and the log.\<close>

definition callbackStep :: "pk \<Rightarrow> pk \<Rightarrow> bool" where
  "callbackStep p p' \<longleftrightarrow>
     (finalCallbackCalls p' = finalCallbackCalls p \<and>
        (finalCallbackExecuted p \<longrightarrow> finalCallbackExecuted p'))
     \<or> (\<not> finalCallbackExecuted p \<and> finalCallbackExecuted p' \<and>
          (\<exists>c. finalCallbackCalls p' = finalCallbackCalls p @ [c]))"

text \<open>Two graphs with the same three vertex arrays.\<close>

definition sameVertices :: "digraph \<Rightarrow> digraph \<Rightarrow> bool" where
  "sameVertices g g' \<longleftrightarrow>
     vertexArray g' = vertexArray g \<and> vertexIdArray g' = vertexIdArray g \<and>
     vertexStateArray g' = vertexStateArray g"

text \<open>The ids of the children, in edge order.\<close>

definition childIds :: "digraph \<Rightarrow> vid \<Rightarrow> vid list" where
  "childIds g n = map snd (filter (\<lambda>(s, e). s = n) (edgeList g))"

text \<open>\<open>a\<close> occurs in the list before the first \<open>b\<close>, if there is any \<open>b\<close>.\<close>

definition precedes :: "'a list \<Rightarrow> 'a \<Rightarrow> 'a \<Rightarrow> bool" where
  "precedes xs a b \<longleftrightarrow> a \<in> set (takeWhile (\<lambda>y. y \<noteq> b) xs)"

text \<open>
  The invariant of the loop of \<^verbatim>\<open>topologicalSort\<close> on the graph \<open>g0\<close>: the vertices of
  \<open>S\<close> and \<open>L\<close> are distinct vertices of the graph and are those that no edge enters any
  more; no edge leaves a vertex of \<open>L\<close>; an edge that is gone has its start in \<open>L\<close>,
  before its end.
\<close>

definition kahnInv :: "digraph \<Rightarrow> digraph \<Rightarrow> vertex list \<Rightarrow> vertex list \<Rightarrow> bool" where
  "kahnInv g0 g S L \<longleftrightarrow>
     sameVertices g0 g \<and>
     length (startVertexIdArray g) = length (endVertexIdArray g) \<and>
     set (edgeList g) \<subseteq> set (edgeList g0) \<and>
     set S \<subseteq> set (vertexArray g0) \<and> set L \<subseteq> set (vertexArray g0) \<and>
     distinct (map v_id (S @ L)) \<and>
     (\<forall>x \<in> set (vertexIdArray g0). x \<in> set (map v_id (S @ L)) \<longleftrightarrow> x \<notin> snd ` set (edgeList g)) \<and>
     (\<forall>x \<in> set (map v_id L). x \<notin> fst ` set (edgeList g)) \<and>
     (\<forall>(a, b) \<in> set (edgeList g0). (a, b) \<in> set (edgeList g) \<or> precedes (map v_id L) a b)"


section \<open>Example graphs\<close>

text \<open>
  A chain \<open>A \<rightarrow> B \<rightarrow> C\<close>, built through the interface, and a scheduler on it that keeps
  going after a failure and has no bound on the number of running processes.
\<close>

definition chainABC :: digraph where
  "chainABC =
     stateOf (addEdge (stateOf (addEdge (stateOf (addVertex (stateOf (addVertex
       (stateOf (addVertex emptyDigraph ''A'' [])) ''B'' [])) ''C'' [])) ''A'' ''B'')) ''B'' ''C'')"

definition chainKeeper :: pk where
  "chainKeeper = (PigeonKeeper False 0)\<lparr>graph := chainABC\<rparr>"

text \<open>
  The chain after \<^verbatim>\<open>start\<close>, when the state of \<open>A\<close> has just been written as SUCCESS,
  and when it has just been written as FAIL: the states on which \<^verbatim>\<open>setState\<close> runs its
  first propagation.
\<close>

definition chainAfterSuccess :: pk where
  "chainAfterSuccess = stateOf (setVertexState (stateOf (start chainKeeper [])) ''A'' ''SUCCESS'')"


text \<open>Two vertices on a cycle: \<open>A \<rightarrow> B \<rightarrow> A\<close>.\<close>

definition cycleAB :: digraph where
  "cycleAB =
     stateOf (addEdge (stateOf (addEdge (stateOf (addVertex
       (stateOf (addVertex emptyDigraph ''A'' [])) ''B'' [])) ''A'' ''B'')) ''B'' ''A'')"


text \<open>
  One task: the vertex \<open>A\<close> is added through the scheduler together with its service, and
  the scheduler is started.
\<close>

definition oneTask :: world where
  "oneTask =
     stateOf (onKeeper
       (stateOf (PigeonKeeper_addVertex
          \<lparr>keeper = PigeonKeeper False 0, services = (\<lambda>name. newService)\<rparr> ''A'' ''serviceA''))
       (\<lambda>p. start p []))"






section \<open>Basic facts\<close>

lemma wf_emptyDigraph: "wf_digraph emptyDigraph"
  by (simp add: wf_digraph_def emptyDigraph_def)

lemma wf_addVertex: "wf_digraph g \<Longrightarrow> wf_digraph (stateOf (addVertex g ident d))"
  by (auto simp: wf_digraph_def addVertex_def Let_def indexOf_None_iff)

lemma wf_addEdge: "wf_digraph g \<Longrightarrow> wf_digraph (stateOf (addEdge g s e))"
  by (auto simp: wf_digraph_def addEdge_def indexOf_None_iff)

lemma chainABC_eq:
  "chainABC =
     \<lparr>vertexArray =
        [\<lparr>v_id = ''A'', v_state = NOT_READY, v_data = []\<rparr>,
         \<lparr>v_id = ''B'', v_state = NOT_READY, v_data = []\<rparr>,
         \<lparr>v_id = ''C'', v_state = NOT_READY, v_data = []\<rparr>],
      vertexIdArray = [''A'', ''B'', ''C''],
      vertexStateArray = [NOT_READY, NOT_READY, NOT_READY],
      startVertexIdArray = [''A'', ''B''],
      endVertexIdArray = [''B'', ''C'']\<rparr>"
  by code_simp

lemma chainStarted_eq:
  "stateOf (start chainKeeper []) =
     \<lparr>graph =
        \<lparr>vertexArray =
           [\<lparr>v_id = ''A'', v_state = IN_PROGRESS, v_data = []\<rparr>,
            \<lparr>v_id = ''B'', v_state = NOT_READY, v_data = []\<rparr>,
            \<lparr>v_id = ''C'', v_state = NOT_READY, v_data = []\<rparr>],
         vertexIdArray = [''A'', ''B'', ''C''],
         vertexStateArray = [NOT_READY, NOT_READY, NOT_READY],
         startVertexIdArray = [''A'', ''B''],
         endVertexIdArray = [''B'', ''C'']\<rparr>,
      finalCallbackExecuted = False, quitOnFailure = False,
      isCurrentlyRunning = True, maxNumberOfRunningProcesses = 0,
      numberOfRunningProcesses = 1,
      topologicalSortOrder = Some [''A'', ''B'', ''C''], results = [],
      finalCallbackCalls = [], startSignals = [''A'']\<rparr>"
  by code_simp

lemma chainAfterSuccess_eq:
  "chainAfterSuccess =
     \<lparr>graph =
        \<lparr>vertexArray =
           [\<lparr>v_id = ''A'', v_state = SUCCESS, v_data = []\<rparr>,
            \<lparr>v_id = ''B'', v_state = NOT_READY, v_data = []\<rparr>,
            \<lparr>v_id = ''C'', v_state = NOT_READY, v_data = []\<rparr>],
         vertexIdArray = [''A'', ''B'', ''C''],
         vertexStateArray = [NOT_READY, NOT_READY, NOT_READY],
         startVertexIdArray = [''A'', ''B''],
         endVertexIdArray = [''B'', ''C'']\<rparr>,
      finalCallbackExecuted = False, quitOnFailure = False,
      isCurrentlyRunning = True, maxNumberOfRunningProcesses = 0,
      numberOfRunningProcesses = 1,
      topologicalSortOrder = Some [''A'', ''B'', ''C''], results = [],
      finalCallbackCalls = [], startSignals = [''A'']\<rparr>"
  by code_simp

lemma wf_chainAfterSuccess: "wf_digraph (graph chainAfterSuccess)"
  by (simp add: chainAfterSuccess_eq wf_digraph_def)



lemma cycleAB_eq:
  "cycleAB =
     \<lparr>vertexArray =
        [\<lparr>v_id = ''A'', v_state = NOT_READY, v_data = []\<rparr>,
         \<lparr>v_id = ''B'', v_state = NOT_READY, v_data = []\<rparr>],
      vertexIdArray = [''A'', ''B''],
      vertexStateArray = [NOT_READY, NOT_READY],
      startVertexIdArray = [''A'', ''B''],
      endVertexIdArray = [''B'', ''A'']\<rparr>"
  by code_simp

lemma wf_chainABC: "wf_digraph chainABC"
  by (simp add: chainABC_eq wf_digraph_def)

lemma wf_removeVertex: "wf_digraph g \<Longrightarrow> wf_digraph (stateOf (removeVertex g vertexId))"
  by (simp add: removeVertex_def array_index_def)

section \<open>Writing vertex states\<close>

lemma parseState_stateName [simp]: "parseState (stateName s) = Some s"
  by (cases s) (simp_all add: parseState_def)

lemma indexOf_map_distinct:
  "distinct (map f xs) \<Longrightarrow> indexOf (map f xs) a = Some i \<Longrightarrow>
   xs[i := h (xs ! i)] = map (\<lambda>v. if f v = a then h v else v) xs"
proof (induction xs arbitrary: i)
  case Nil
  then show ?case by simp
next
  case (Cons x xs)
  show ?case
  proof (cases "f x = a")
    case True
    with Cons.prems have "i = 0" by simp
    moreover from True Cons.prems(1) have "a \<notin> f ` set xs" by simp
    then have "\<forall>v\<in>set xs. f v \<noteq> a" by blast
    then have "map (\<lambda>v. if f v = a then h v else v) xs = xs"
      by (simp add: map_idI)
    ultimately show ?thesis using True by simp
  next
    case False
    with Cons.prems obtain j where j: "indexOf (map f xs) a = Some j" and i: "i = Suc j"
      by auto
    from Cons.IH [OF _ j] Cons.prems(1) False i show ?thesis by simp
  qed
qed

lemma getVertex_wf:
  assumes "wf_digraph g" and "x \<in> set (vertexIdArray g)"
  shows "\<exists>v. getVertex g x = Inr v \<and> v \<in> set (vertexArray g) \<and> v_id v = x"
proof -
  from assms(2) obtain i where i: "indexOf (vertexIdArray g) x = Some i"
    by (cases "indexOf (vertexIdArray g) x") (auto simp: indexOf_None_iff)
  from indexOf_Some_nth [OF i] assms(1) have "i < length (vertexArray g)" "v_id (vertexArray g ! i) = x"
    by (auto simp: wf_digraph_def)
  with i show ?thesis by (auto simp: getVertex_def)
qed


lemma setVertexState_wf:
  assumes "wf_digraph (graph p)" and "x \<in> set (vertexIdArray (graph p))"
  shows "\<exists>sig. setVertexState p x (stateName s) =
           Return () (updVertices (\<lambda>v. if v_id v = x then v\<lparr>v_state := s\<rparr> else v) sig p)"
proof -
  from assms(2) obtain i where i: "indexOf (vertexIdArray (graph p)) x = Some i"
    by (cases "indexOf (vertexIdArray (graph p)) x") (auto simp: indexOf_None_iff)
  from assms(1) have ids: "vertexIdArray (graph p) = map v_id (vertexArray (graph p))"
    and d: "distinct (map v_id (vertexArray (graph p)))"
    by (auto simp: wf_digraph_def)
  from indexOf_Some_nth [OF i] ids have lt: "i < length (vertexArray (graph p))" by simp
  from indexOf_map_distinct [OF d, of x i "\<lambda>v. v\<lparr>v_state := s\<rparr>"] i ids
  have "(vertexArray (graph p))[i := (vertexArray (graph p) ! i)\<lparr>v_state := s\<rparr>]
        = map (\<lambda>v. if v_id v = x then v\<lparr>v_state := s\<rparr> else v) (vertexArray (graph p))"
    by simp
  with i lt have "setVertexState p x (stateName s) =
      Return () (updVertices (\<lambda>v. if v_id v = x then v\<lparr>v_state := s\<rparr> else v)
        (if s = IN_PROGRESS \<and> isCurrentlyRunning p then startSignals p @ [x] else startSignals p) p)"
    using indexOf_Some_nth [OF i] ids
    by (simp add: setVertexState_def Vertex_setState_def updVertices_def)
  then show ?thesis ..
qed

lemma wf_updVertices:
  assumes "wf_digraph (graph p)" and "\<And>v. v_id (f v) = v_id v"
  shows "wf_digraph (graph (updVertices f sig p))"
  using assms unfolding wf_digraph_def updVertices_def by auto

lemma updVertices_updVertices:
  "updVertices f sig (updVertices f' sig' p) = updVertices (f \<circ> f') sig p"
  by (simp add: updVertices_def)

lemma vertexIdArray_updVertices [simp]:
  "vertexIdArray (graph (updVertices f sig p)) = vertexIdArray (graph p)"
  by (simp add: updVertices_def)

text \<open>The second loop writes F x to every vertex x of the list.\<close>

lemma transferNewStates_wf:
  assumes "wf_digraph (graph p)" and "set xs \<subseteq> set (vertexIdArray (graph p))"
  shows "\<exists>sig. transferNewStates (map (\<lambda>x. (Inr x, F x)) xs) p =
           Return () (updVertices (\<lambda>v. if v_id v \<in> set xs then v\<lparr>v_state := F (v_id v)\<rparr> else v) sig p)"
  using assms
proof (induction xs arbitrary: p)
  case Nil
  have "updVertices (\<lambda>v. v) (startSignals p) p = p"
    by (simp add: updVertices_def)
  then show ?case by (auto intro: exI [of _ "startSignals p"])
next
  case (Cons x xs)
  let ?f = "\<lambda>v. if v_id v = x then v\<lparr>v_state := F x\<rparr> else v"
  from Cons.prems setVertexState_wf [of p x "F x"] obtain sig1 where
    s1: "setVertexState p x (stateName (F x)) = Return () (updVertices ?f sig1 p)"
    by auto
  have wf1: "wf_digraph (graph (updVertices ?f sig1 p))"
    by (rule wf_updVertices [OF Cons.prems(1)]) simp
  from Cons.IH [OF wf1] Cons.prems(2) obtain sig2 where
    s2: "transferNewStates (map (\<lambda>x. (Inr x, F x)) xs) (updVertices ?f sig1 p) =
           Return () (updVertices (\<lambda>v. if v_id v \<in> set xs then v\<lparr>v_state := F (v_id v)\<rparr> else v)
              sig2 (updVertices ?f sig1 p))"
    by auto
  have comp: "(\<lambda>v. if v_id v \<in> set xs then v\<lparr>v_state := F (v_id v)\<rparr> else v) \<circ> ?f
        = (\<lambda>v. if v_id v \<in> set (x # xs) then v\<lparr>v_state := F (v_id v)\<rparr> else v)"
    by (auto simp: fun_eq_iff)
  show ?case
    by (rule exI [of _ sig2]) (simp add: s1 s2 updVertices_updVertices comp del: set_simps)
qed

section \<open>What one propagation computes\<close>

lemma filter_id_single:
  "distinct (map f xs) \<Longrightarrow> v \<in> set xs \<Longrightarrow> filter (\<lambda>u. f u = f v) xs = [v]"
proof (induction xs)
  case Nil
  then show ?case by simp
next
  case (Cons x xs)
  show ?case
  proof (cases "x = v")
    case True
    from Cons.prems(1) have "f x \<notin> f ` set xs" by simp
    then have "\<forall>u\<in>set xs. f u \<noteq> f x" by (metis imageI)
    then have "filter (\<lambda>u. f u = f x) xs = []" by (simp add: filter_empty_conv)
    with True show ?thesis by simp
  next
    case False
    with Cons.prems have v: "v \<in> set xs" by simp
    from Cons.prems(1) v have "f x \<noteq> f v" by force
    with Cons.IH [OF _ v] Cons.prems(1) show ?thesis by simp
  qed
qed

lemma vertex_filter_wf:
  assumes "wf_digraph g" and "x \<in> set (vertexIdArray g)"
  shows "map v_state (filter (\<lambda>v. v_id v = x) (vertexArray g)) = [stateIn g x]"
proof -
  from getVertex_wf [OF assms] obtain v where v: "getVertex g x = Inr v"
    "v \<in> set (vertexArray g)" "v_id v = x"
    by auto
  from assms(1) have "distinct (map v_id (vertexArray g))" by (auto simp: wf_digraph_def)
  from filter_id_single [OF this v(2)] v show ?thesis by (simp add: stateIn_def)
qed

lemma stateIn_vertex:
  assumes "wf_digraph g" and "v \<in> set (vertexArray g)"
  shows "stateIn g (v_id v) = v_state v"
proof -
  from assms have "v_id v \<in> set (vertexIdArray g)" by (auto simp: wf_digraph_def)
  from vertex_filter_wf [OF assms(1) this] assms have
    "map v_state (filter (\<lambda>u. v_id u = v_id v) (vertexArray g)) = [stateIn g (v_id v)]" by simp
  moreover from assms(1) have "distinct (map v_id (vertexArray g))" by (auto simp: wf_digraph_def)
  from filter_id_single [OF this assms(2)] have "filter (\<lambda>u. v_id u = v_id v) (vertexArray g) = [v]" .
  ultimately show ?thesis by simp
qed

lemma edge_endpoints_wf:
  assumes "wf_digraph g" and "(s, e) \<in> set (edgeList g)"
  shows "s \<in> set (vertexIdArray g) \<and> e \<in> set (vertexIdArray g)"
  using assms by (auto simp: wf_digraph_def edgeList_def dest: set_zip_leftD set_zip_rightD)

lemma parentIds_subset: "wf_digraph g \<Longrightarrow> set (parentIds g x) \<subseteq> set (vertexIdArray g)"
  by (auto simp: parentIds_def dest: edge_endpoints_wf)

lemma concat_map_if_single:
  "concat (map (\<lambda>v. if P v then [f v] else []) xs) = map f (filter P xs)"
  by (induction xs) simp_all

lemma parentStates_wf:
  assumes "wf_digraph g"
  shows "parentStates g x = map (stateIn g) (parentIds g x)"
proof -
  have "\<And>es. set es \<subseteq> set (edgeList g) \<Longrightarrow>
      concat (map (\<lambda>(s, e). if e = x then map v_state (filter (\<lambda>v. v_id v = s) (vertexArray g)) else []) es)
      = map (stateIn g) (map fst (filter (\<lambda>(s, e). e = x) es))"
  proof -
    fix es show "set es \<subseteq> set (edgeList g) \<Longrightarrow>
      concat (map (\<lambda>(s, e). if e = x then map v_state (filter (\<lambda>v. v_id v = s) (vertexArray g)) else []) es)
      = map (stateIn g) (map fst (filter (\<lambda>(s, e). e = x) es))"
    proof (induction es)
      case Nil
      show ?case by simp
    next
      case (Cons a es)
      obtain s e where a: "a = (s, e)" by (cases a)
      with Cons.prems have "s \<in> set (vertexIdArray g)"
        using edge_endpoints_wf [OF assms, of s e] by simp
      from vertex_filter_wf [OF assms this] Cons.IH Cons.prems a show ?case by simp
    qed
  qed
  from this [of "edgeList g"] show ?thesis
    by (simp add: parentStates_def parentIds_def concat_map_if_single cong: if_cong)
qed

lemma vertexAt_wf:
  assumes "wf_digraph g" and "x \<in> set (vertexIdArray g)"
  shows "\<exists>v. vertexAt g x = Some v \<and> v \<in> set (vertexArray g) \<and> v_id v = x"
  using getVertex_wf [OF assms]
  by (auto simp: getVertex_def vertexAt_def split: option.splits if_splits)

lemma getParentVertexIds_wf:
  assumes "wf_digraph g"
  shows "getParentVertexIds g x = Inr (parentIds g x)"
proof -
  have "\<And>es. set es \<subseteq> set (edgeList g) \<Longrightarrow>
     idsOf (map (\<lambda>(s, e). vertexAt g s) es) = Inr (map fst es)"
  proof -
    fix es show "set es \<subseteq> set (edgeList g) \<Longrightarrow>
     idsOf (map (\<lambda>(s, e). vertexAt g s) es) = Inr (map fst es)"
    proof (induction es)
      case Nil
      show ?case by simp
    next
      case (Cons a es)
      obtain s e where a: "a = (s, e)" by (cases a)
      with Cons.prems have "s \<in> set (vertexIdArray g)"
        using edge_endpoints_wf [OF assms, of s e] by simp
      from vertexAt_wf [OF assms this] Cons.IH Cons.prems a show ?case by auto
    qed
  qed
  from this [of "filter (\<lambda>(s, e). e = x) (edgeList g)"] show ?thesis
    by (simp add: getParentVertexIds_def getParentVertices_def parentIds_def)
qed

lemma parentFlags_wf:
  assumes "wf_digraph g" and "set ps \<subseteq> set (vertexIdArray g)"
  shows "parentFlags g ps (a, f) =
     Inr (a \<and> list_all (\<lambda>s. s = SUCCESS) (map (stateIn g) ps),
          f \<or> list_ex (\<lambda>s. s = FAIL) (map (stateIn g) ps))"
  using assms(2)
proof (induction ps arbitrary: a f)
  case Nil
  show ?case by simp
next
  case (Cons x ps)
  from Cons.prems have x: "x \<in> set (vertexIdArray g)" by simp
  from getVertex_wf [OF assms(1) x] obtain v where v: "getVertex g x = Inr v" by auto
  then have st: "stateIn g x = v_state v" by (simp add: stateIn_def)
  from Cons.prems have "set ps \<subseteq> set (vertexIdArray g)" by simp
  from Cons.IH [OF this] v st show ?case by auto
qed


lemma computeNewState_wf:
  assumes "wf_digraph g" and "v \<in> set (vertexArray g)"
  shows "computeNewState g v =
    Inr (propagationRule (indegree g (v_id v)) (v_state v) (parentStates g (v_id v)))"
  using parentFlags_wf [OF assms(1) parentIds_subset [OF assms(1)], of "v_id v" True False]
  by (auto simp: computeNewState_def getParentVertexIds_wf [OF assms(1)] parentStates_wf [OF assms(1)]
        propagationRule_def)

lemma calculateNewStates_wf:
  assumes "wf_digraph g" and "set xs \<subseteq> set (vertexIdArray g)"
  shows "calculateNewStates g (map Inr xs) =
     Inr (map (\<lambda>x. propagationRule (indegree g x) (stateIn g x) (parentStates g x)) xs)"
  using assms(2)
proof (induction xs)
  case Nil
  show ?case by simp
next
  case (Cons x xs)
  from Cons.prems have x: "x \<in> set (vertexIdArray g)" by simp
  from getVertex_wf [OF assms(1) x] obtain v where v: "getVertex g x = Inr v"
    "v \<in> set (vertexArray g)" "v_id v = x" by auto
  from v have st: "stateIn g x = v_state v" by (simp add: stateIn_def)
  from Cons.IH Cons.prems computeNewState_wf [OF assms(1) v(2)] v st show ?case by simp
qed


lemma updVertices_cong:
  "(\<And>v. v \<in> set (vertexArray (graph p)) \<Longrightarrow> f v = f' v) \<Longrightarrow> updVertices f sig p = updVertices f' sig p"
  by (simp add: updVertices_def cong: map_cong)

text \<open>What updateStates does on a well-formed graph.\<close>

lemma updateStates_Return:
  assumes "wf_digraph (graph p)" and "topoEntries p = map Inr xs"
    and "set xs \<subseteq> set (vertexIdArray (graph p))"
  shows "\<exists>sig. updateStates p =
     Return () (updVertices (\<lambda>v. if v_id v \<in> set xs then propagated (graph p) v else v) sig p)"
proof -
  let ?F = "\<lambda>x. propagationRule (indegree (graph p) x) (stateIn (graph p) x) (parentStates (graph p) x)"
  have zip: "zip (map Inr xs) (map ?F xs) = map (\<lambda>x. (Inr x, ?F x)) xs"
    by (induction xs) simp_all
  from transferNewStates_wf [OF assms(1,3), of ?F] obtain sig where
    t: "transferNewStates (map (\<lambda>x. (Inr x, ?F x)) xs) p =
        Return () (updVertices (\<lambda>v. if v_id v \<in> set xs then v\<lparr>v_state := ?F (v_id v)\<rparr> else v) sig p)"
    by auto
  have "updVertices (\<lambda>v. if v_id v \<in> set xs then v\<lparr>v_state := ?F (v_id v)\<rparr> else v) sig p
      = updVertices (\<lambda>v. if v_id v \<in> set xs then propagated (graph p) v else v) sig p"
    by (rule updVertices_cong) (simp add: propagated_def stateIn_vertex [OF assms(1)])
  with t have "updateStates p =
     Return () (updVertices (\<lambda>v. if v_id v \<in> set xs then propagated (graph p) v else v) sig p)"
    by (simp add: updateStates_def assms(2) calculateNewStates_wf [OF assms(1,3)] zip)
  then show ?thesis ..
qed


lemma topoEntries_order:
  assumes "topologicalSortOrder p = Some order" and "length order = vertexCount (graph p)"
  shows "topoEntries p = map Inr order"
  using assms by (auto simp: topoEntries_def topoEntry_def intro!: nth_equalityI)

section \<open>A second propagation\<close>

lemma propagationRule_SUCCESS [simp]: "propagationRule n s ps = SUCCESS \<longleftrightarrow> s = SUCCESS"
  by (simp add: propagationRule_def)

lemma propagationRule_IN_PROGRESS [simp]: "propagationRule n s ps = IN_PROGRESS \<longleftrightarrow> s = IN_PROGRESS"
  by (simp add: propagationRule_def)


lemma edgeList_updVertices [simp]: "edgeList (graph (updVertices f sig p)) = edgeList (graph p)"
  by (simp add: edgeList_def updVertices_def)


lemma parentIds_updVertices [simp]: "parentIds (graph (updVertices f sig p)) x = parentIds (graph p) x"
  by (simp add: parentIds_def)

lemma indegree_updVertices [simp]: "indegree (graph (updVertices f sig p)) x = indegree (graph p) x"
  by (simp add: indegree_def)

lemma topoEntries_updVertices [simp]: "topoEntries (updVertices f sig p) = topoEntries p"
  by (simp add: topoEntries_def updVertices_def vertexCount_def)


lemma propagated_id [simp]: "v_id (propagated g v) = v_id v"
  by (simp add: propagated_def)

lemma list_ex_map_cong:
  "(\<And>x. x \<in> set xs \<Longrightarrow> Q (f x) = Q (h x)) \<Longrightarrow> list_ex Q (map f xs) = list_ex Q (map h xs)"
  by (induction xs) auto










section \<open>The final callback along a run\<close>

lemma sameCallbacks_refl [simp]: "sameCallbacks p p"
  by (simp add: sameCallbacks_def)

lemma sameCallbacks_trans: "sameCallbacks p q \<Longrightarrow> sameCallbacks q r \<Longrightarrow> sameCallbacks p r"
  by (simp add: sameCallbacks_def)

lemma sameCallbacks_setVertexState: "sameCallbacks p (stateOf (setVertexState p v n))"
  by (auto simp: sameCallbacks_def setVertexState_def split: option.splits sum.splits)

lemma sameCallbacks_andThen:
  assumes "sameCallbacks p (stateOf out)" and "\<And>q. sameCallbacks q (stateOf (f q))"
  shows "sameCallbacks p (stateOf (andThen out f))"
  using assms by (cases out) (auto intro: sameCallbacks_trans)

lemma sameCallbacks_setStatesOf: "sameCallbacks p (stateOf (setStatesOf vs n p))"
proof (induction vs arbitrary: p)
  case Nil
  show ?case by simp
next
  case (Cons v vs)
  show ?case
    by (simp, rule sameCallbacks_andThen [OF sameCallbacks_setVertexState Cons.IH])
qed

lemma sameCallbacks_transferNewStates: "sameCallbacks p (stateOf (transferNewStates xs p))"
proof (induction xs p rule: transferNewStates.induct)
  case (3 vertexId s rest p)
  show ?case
  proof (cases "setVertexState p vertexId (stateName s)")
    case (Return u q)
    with 3 [of q] sameCallbacks_setVertexState [of p vertexId "stateName s"] show ?thesis
      by (auto intro: sameCallbacks_trans)
  next
    case (Throw e q)
    with sameCallbacks_setVertexState [of p vertexId "stateName s"] show ?thesis by simp
  qed
qed simp_all

lemma sameCallbacks_updateStates: "sameCallbacks p (stateOf (updateStates p))"
  by (simp add: updateStates_def sameCallbacks_transferNewStates split: sum.splits)

lemma sameCallbacks_startReady: "sameCallbacks p (stateOf (startReady vs p))"
proof (induction vs arbitrary: p)
  case Nil
  show ?case by simp
next
  case (Cons v vs)
  have step: "sameCallbacks p
      (stateOf (andThen (setVertexState (p\<lparr>numberOfRunningProcesses := numberOfRunningProcesses p + 1\<rparr>)
          v ''IN_PROGRESS'') (startReady vs)))"
  proof (rule sameCallbacks_andThen [OF _ Cons.IH])
    have "sameCallbacks p (p\<lparr>numberOfRunningProcesses := numberOfRunningProcesses p + 1\<rparr>)"
      by (simp add: sameCallbacks_def)
    then show "sameCallbacks p (stateOf (setVertexState
        (p\<lparr>numberOfRunningProcesses := numberOfRunningProcesses p + 1\<rparr>) v ''IN_PROGRESS''))"
      by (rule sameCallbacks_trans [OF _ sameCallbacks_setVertexState])
  qed
  show ?case using step Cons.IH [of p]
    by (simp split: sum.splits)
qed

lemma sameCallbacks_startReadyProcesses: "sameCallbacks p (stateOf (startReadyProcesses p))"
  by (simp add: startReadyProcesses_def sameCallbacks_startReady)

lemma sameCallbacks_initializeStates: "sameCallbacks p (stateOf (initializeStates p))"
  by (simp add: initializeStates_def sameCallbacks_setStatesOf)

lemma callbackStep_same: "sameCallbacks p p' \<Longrightarrow> callbackStep p p'"
  by (simp add: sameCallbacks_def callbackStep_def)

lemma callbackStep_trans: "callbackStep p q \<Longrightarrow> callbackStep q r \<Longrightarrow> callbackStep p r"
  by (auto simp: callbackStep_def)

lemma callbackStep_same_left: "sameCallbacks p q \<Longrightarrow> callbackStep q r \<Longrightarrow> callbackStep p r"
  by (auto simp: callbackStep_def sameCallbacks_def)

lemma callbackStep_finalCallbackSuccess: "callbackStep p (stateOf (finalCallbackSuccess p))"
  by (simp add: callbackStep_def finalCallbackSuccess_def)

lemma callbackStep_finalCallbackFailedStates: "callbackStep p (stateOf (finalCallbackFailedStates p))"
  by (simp add: callbackStep_def finalCallbackFailedStates_def split: sum.splits)

lemma callbackStep_finalCallbackStateFailed: "callbackStep p (stateOf (finalCallbackStateFailed p v))"
  by (simp add: callbackStep_def finalCallbackStateFailed_def)

lemma callbackStep_andThen:
  assumes "callbackStep p (stateOf out)" and "\<And>q. callbackStep q (stateOf (f q))"
  shows "callbackStep p (stateOf (andThen out f))"
  using assms by (cases out) (auto intro: callbackStep_trans)

lemma sameCallbacks_running: "sameCallbacks p (p\<lparr>isCurrentlyRunning := b\<rparr>)"
  by (simp add: sameCallbacks_def)

lemma sameCallbacks_number: "sameCallbacks p (p\<lparr>numberOfRunningProcesses := n\<rparr>)"
  by (simp add: sameCallbacks_def)

lemma callbackStep_setStateSuccess: "callbackStep p (stateOf (setStateSuccess p))"
  unfolding setStateSuccess_def
proof (rule callbackStep_andThen)
  show "callbackStep p (stateOf (updateStates (p\<lparr>numberOfRunningProcesses := numberOfRunningProcesses p - 1\<rparr>)))"
    by (rule callbackStep_same [OF sameCallbacks_trans [OF sameCallbacks_number sameCallbacks_updateStates]])
next
  fix q
  show "callbackStep q (stateOf (case statePredicates (graph q) (getVertexIds (graph q)) (True, False, True) of
          Inl e \<Rightarrow> Throw e q
        | Inr (allStatesSuccessful, someStateFailed, allStatesFinal) \<Rightarrow>
            if allStatesFinal then
              if allStatesSuccessful then finalCallbackSuccess (q\<lparr>isCurrentlyRunning := False\<rparr>)
              else finalCallbackFailedStates (q\<lparr>isCurrentlyRunning := False\<rparr>)
            else if allStatesSuccessful then finalCallbackSuccess q
            else if someStateFailed then
              if quitOnFailure q then finalCallbackFailedStates (q\<lparr>isCurrentlyRunning := False\<rparr>)
              else updateStates q
            else startReadyProcesses q))"
    using callbackStep_same_left [OF sameCallbacks_running callbackStep_finalCallbackSuccess, of q False]
      callbackStep_same_left [OF sameCallbacks_running callbackStep_finalCallbackFailedStates, of q False]
      callbackStep_finalCallbackSuccess [of q]
      callbackStep_same [OF sameCallbacks_updateStates, of q]
      callbackStep_same [OF sameCallbacks_startReadyProcesses, of q]
    by (auto simp: callbackStep_same split: sum.splits)
qed

lemma callbackStep_setStateFail: "callbackStep p (stateOf (setStateFail p v))"
  unfolding setStateFail_def
proof (rule callbackStep_andThen)
  show "callbackStep p (stateOf (updateStates (p\<lparr>numberOfRunningProcesses := numberOfRunningProcesses p - 1\<rparr>)))"
    by (rule callbackStep_same [OF sameCallbacks_trans [OF sameCallbacks_number sameCallbacks_updateStates]])
next
  fix q
  have inner: "\<And>b. callbackStep q (stateOf (andThen (updateStates q)
                (\<lambda>p. if b then finalCallbackFailedStates p else Return () p)))"
    by (rule callbackStep_andThen [OF callbackStep_same [OF sameCallbacks_updateStates]])
       (simp add: callbackStep_finalCallbackFailedStates callbackStep_same)
  show "callbackStep q (stateOf (case statePredicates (graph q) (getVertexIds (graph q)) (True, False, True) of
          Inl e \<Rightarrow> Throw e q
        | Inr (allStatesSuccessful, someStateFailed, allStatesFinal) \<Rightarrow>
            if quitOnFailure q then finalCallbackStateFailed (q\<lparr>isCurrentlyRunning := False\<rparr>) v
            else
              andThen (updateStates q)
                (\<lambda>p. if allStatesFinal \<and> someStateFailed then finalCallbackFailedStates p
                     else Return () p)))"
    using callbackStep_same_left [OF sameCallbacks_running callbackStep_finalCallbackStateFailed, of q False v]
      inner
    by (auto simp: callbackStep_same split: sum.splits)
qed

lemma callbackStep_setState: "callbackStep p (stateOf (setState p v n))"
proof -
  have "callbackStep p (stateOf (andThen (setVertexState p v n)
            (\<lambda>p. if n = ''SUCCESS'' then setStateSuccess p
                 else if n = ''FAIL'' then setStateFail p v
                 else Return () p)))"
    by (rule callbackStep_andThen [OF callbackStep_same [OF sameCallbacks_setVertexState]])
       (simp add: callbackStep_setStateSuccess callbackStep_setStateFail callbackStep_same)
  then show ?thesis
    by (simp add: setState_def callbackStep_same)
qed

lemma callbackStep_deliver: "callbackStep p (deliver p events)"
proof (induction events arbitrary: p)
  case Nil
  show ?case by (simp add: callbackStep_same)
next
  case (Cons ev events)
  obtain v n where ev: "ev = (v, n)" by (cases ev)
  show ?case
    using callbackStep_trans [OF callbackStep_setState Cons.IH] by (simp add: ev)
qed

lemma start_callbacks:
  "finalCallbackCalls (stateOf (start p d)) = finalCallbackCalls p \<and>
   \<not> finalCallbackExecuted (stateOf (start p d))"
proof -
  let ?p1 = "p\<lparr>finalCallbackExecuted := False, results := d\<rparr>"
  show ?thesis
  proof (cases "topologicalSort (graph ?p1)")
    case (Throw e g')
    then show ?thesis by (simp add: start_def)
  next
    case (Return L g')
    let ?p2 = "?p1\<lparr>graph := g', topologicalSortOrder := Some (vertexIdsFromArray L),
                      numberOfRunningProcesses := 0, isCurrentlyRunning := True\<rparr>"
    have "sameCallbacks ?p2 (stateOf (andThen (andThen (initializeStates ?p2) updateStates) startReadyProcesses))"
      by (intro sameCallbacks_andThen sameCallbacks_initializeStates sameCallbacks_updateStates
            sameCallbacks_startReadyProcesses)
    with Return show ?thesis
      by (simp add: start_def sameCallbacks_def)
  qed
qed

section \<open>The loops of the topological sort\<close>

lemma splice1_indexOf: "indexOf xs x = Some i \<Longrightarrow> splice1 i xs = remove1 x xs"
proof (induction xs arbitrary: i)
  case Nil
  then show ?case by simp
next
  case (Cons y ys)
  show ?case
  proof (cases "y = x")
    case True
    with Cons.prems show ?thesis by (simp add: splice1_def)
  next
    case False
    with Cons.prems obtain j where j: "indexOf ys x = Some j" and i: "i = Suc j" by auto
    from Cons.IH [OF j] False i show ?thesis by (simp add: splice1_def)
  qed
qed

lemma zip_splice1:
  "i < length xs \<Longrightarrow> i < length ys \<Longrightarrow> zip (splice1 i xs) (splice1 i ys) = splice1 i (zip xs ys)"
  by (simp add: splice1_def take_zip drop_zip)

lemma sameVertices_refl [simp]: "sameVertices g g"
  by (simp add: sameVertices_def)

lemma sameVertices_trans: "sameVertices g g' \<Longrightarrow> sameVertices g' g'' \<Longrightarrow> sameVertices g g''"
  by (simp add: sameVertices_def)

lemma removeEdge_Return:
  assumes "(s, e) \<in> set (edgeList g)"
  shows "\<exists>g'. removeEdge g s e = Return () g' \<and> sameVertices g g' \<and>
           edgeList g' = remove1 (s, e) (edgeList g) \<and>
           (length (startVertexIdArray g) = length (endVertexIdArray g) \<longrightarrow>
            length (startVertexIdArray g') = length (endVertexIdArray g'))"
proof -
  from assms obtain i where i: "indexOf (edgeList g) (s, e) = Some i"
    by (cases "indexOf (edgeList g) (s, e)") (auto simp: indexOf_None_iff)
  let ?g' = "g\<lparr>startVertexIdArray := splice1 i (startVertexIdArray g),
               endVertexIdArray := splice1 i (endVertexIdArray g)\<rparr>"
  have "removeEdge g s e = Return () ?g'" using i by (simp add: removeEdge_def)
  moreover have "sameVertices g ?g'" by (simp add: sameVertices_def)
  moreover have "edgeList ?g' = remove1 (s, e) (edgeList g)"
    using splice1_indexOf [OF i] indexOf_Some_nth [OF i] by (simp add: edgeList_def zip_splice1)
  moreover have "length (startVertexIdArray g) = length (endVertexIdArray g) \<longrightarrow>
            length (startVertexIdArray ?g') = length (endVertexIdArray ?g')"
    by (simp add: splice1_def)
  ultimately show ?thesis by blast
qed

lemma indegree_zero: "indegree g m = 0 \<longleftrightarrow> m \<notin> snd ` set (edgeList g)"
  by (auto simp: indegree_def filter_empty_conv image_iff)

lemma filter_remove1_first:
  "filter P es = x # rest \<Longrightarrow> filter P (remove1 x es) = rest"
proof (induction es)
  case Nil
  then show ?case by simp
next
  case (Cons y es)
  show ?case
  proof (cases "P y")
    case True
    with Cons.prems show ?thesis by simp
  next
    case False
    with Cons.prems have f: "filter P es = x # rest" by simp
    then have "x \<in> set (filter P es)" by simp
    then have "P x" by simp
    with False have "x \<noteq> y" by blast
    with False Cons.IH [OF f] show ?thesis by simp
  qed
qed

lemma filter_remove1_other: "\<not> P x \<Longrightarrow> filter P (remove1 x es) = filter P es"
  by (induction es) auto

lemma set_childIds: "set (childIds g n) = {c. (n, c) \<in> set (edgeList g)}"
  by (force simp: childIds_def)

lemma getChildVertices_childIds: "getChildVertices g n = map (vertexAt g) (childIds g n)"
  by (simp add: getChildVertices_def childIds_def case_prod_unfold comp_def)

lemma vertexAt_sameVertices: "sameVertices g g' \<Longrightarrow> vertexAt g' = vertexAt g"
  by (auto simp: sameVertices_def vertexAt_def fun_eq_iff split: option.splits)

lemma wf_sameVertices:
  assumes "wf_digraph g" and "sameVertices g g'"
    and "length (startVertexIdArray g') = length (endVertexIdArray g')"
    and "set (edgeList g') \<subseteq> set (edgeList g)"
  shows "wf_digraph g'"
proof -
  from assms(3) have "set (startVertexIdArray g') = fst ` set (edgeList g')"
    "set (endVertexIdArray g') = snd ` set (edgeList g')"
    unfolding edgeList_def by (metis map_fst_zip set_map, metis map_snd_zip set_map)
  moreover from assms(1) have "fst ` set (edgeList g) \<subseteq> set (vertexIdArray g)"
    "snd ` set (edgeList g) \<subseteq> set (vertexIdArray g)"
    by (auto simp: wf_digraph_def edgeList_def dest: set_zip_leftD set_zip_rightD)
  ultimately have "set (startVertexIdArray g') \<subseteq> set (vertexIdArray g)"
    "set (endVertexIdArray g') \<subseteq> set (vertexIdArray g)"
    using assms(4) by blast+
  with assms(1,2,3) show ?thesis by (auto simp: wf_digraph_def sameVertices_def)
qed

lemma wf_removeEdge:
  assumes "wf_digraph g"
  shows "wf_digraph (stateOf (removeEdge g s e))"
proof (cases "(s, e) \<in> set (edgeList g)")
  case True
  from removeEdge_Return [OF True] assms obtain g' where r: "removeEdge g s e = Return () g'"
    and sv: "sameVertices g g'" and el: "edgeList g' = remove1 (s, e) (edgeList g)"
    and len: "length (startVertexIdArray g') = length (endVertexIdArray g')"
    by (auto simp: wf_digraph_def)
  have "set (edgeList g') \<subseteq> set (edgeList g)"
    using set_remove1_subset [of "(s, e)" "edgeList g"] by (simp add: el)
  from wf_sameVertices [OF assms sv len this] r show ?thesis by simp
next
  case False
  then have "indexOf (edgeList g) (s, e) = None" by (simp add: indexOf_None_iff)
  then have "removeEdge g s e = Throw EdgeDoesntExist g"
    by (simp add: removeEdge_def)
  with assms show ?thesis by simp
qed

text \<open>The inner loop removes every edge that leaves n and pushes the children left without parent.\<close>

lemma removeChildEdges_wf:
  assumes "wf_digraph g" and "childIds g (v_id n) = chs"
  shows "\<exists>S' g' P. removeChildEdges (map (vertexAt g) chs) n g S = Return S' g' \<and>
           sameVertices g g' \<and>
           length (startVertexIdArray g') = length (endVertexIdArray g') \<and>
           edgeList g' = filter (\<lambda>(s, e). s \<noteq> v_id n) (edgeList g) \<and>
           S' = S @ P \<and> set P \<subseteq> set (vertexArray g) \<and> distinct (map v_id P) \<and>
           set (map v_id P) = {m \<in> set chs. m \<notin> snd ` set (edgeList g')}"
  using assms
proof (induction chs arbitrary: g S)
  case Nil
  then have "filter (\<lambda>(s, e). s = v_id n) (edgeList g) = []" by (simp add: childIds_def)
  then have "filter (\<lambda>(s, e). s \<noteq> v_id n) (edgeList g) = edgeList g"
    by (auto simp: filter_empty_conv filter_id_conv)
  moreover from Nil.prems have "length (startVertexIdArray g) = length (endVertexIdArray g)"
    by (simp add: wf_digraph_def)
  ultimately show ?case by simp
next
  case (Cons m chs)
  let ?n = "v_id n"
  from Cons.prems(2) obtain z rest where f0: "filter (\<lambda>(s, e). s = ?n) (edgeList g) = z # rest"
    and z: "snd z = m" and rest: "map snd rest = chs"
    by (auto simp: childIds_def map_eq_Cons_conv)
  from f0 have "z \<in> set (filter (\<lambda>(s, e). s = ?n) (edgeList g))" by simp
  then have "fst z = ?n" by auto
  with z have "z = (?n, m)" by (cases z) simp
  with f0 have f: "filter (\<lambda>(s, e). s = ?n) (edgeList g) = (?n, m) # rest" by simp
  then have "(?n, m) \<in> set (filter (\<lambda>(s, e). s = ?n) (edgeList g))" by simp
  then have mem: "(?n, m) \<in> set (edgeList g)" by simp
  from removeEdge_Return [OF mem] obtain g1 where rm: "removeEdge g ?n m = Return () g1"
    and sv1: "sameVertices g g1" and e1: "edgeList g1 = remove1 (?n, m) (edgeList g)"
    and len1: "length (startVertexIdArray g1) = length (endVertexIdArray g1)"
    using Cons.prems(1) by (auto simp: wf_digraph_def)
  have sub1: "set (edgeList g1) \<subseteq> set (edgeList g)" using set_remove1_subset [of "(?n, m)" "edgeList g"] by (simp add: e1)
  have wf1: "wf_digraph g1" by (rule wf_sameVertices [OF Cons.prems(1) sv1 len1 sub1])
  have ch1: "childIds g1 ?n = chs"
    using filter_remove1_first [OF f] rest by (simp add: childIds_def e1)
  from Cons.prems(1) mem have "m \<in> set (vertexIdArray g)"
    by (auto simp: wf_digraph_def edgeList_def dest: set_zip_rightD)
  from vertexAt_wf [OF Cons.prems(1) this]
  obtain mv where mv: "vertexAt g m = Some mv" "mv \<in> set (vertexArray g)" "v_id mv = m"
    by blast
  let ?S1 = "if indegree g1 m = 0 then S @ [mv] else S"
  from Cons.IH [OF wf1 ch1, of ?S1] obtain S' g' P where
    r: "removeChildEdges (map (vertexAt g1) chs) n g1 ?S1 = Return S' g'"
    and sv: "sameVertices g1 g'"
    and len: "length (startVertexIdArray g') = length (endVertexIdArray g')"
    and e': "edgeList g' = filter (\<lambda>(s, e). s \<noteq> ?n) (edgeList g1)"
    and S': "S' = ?S1 @ P" and Psub: "set P \<subseteq> set (vertexArray g1)"
    and Pd: "distinct (map v_id P)"
    and Pset: "set (map v_id P) = {m \<in> set chs. m \<notin> snd ` set (edgeList g')}"
    by blast
  have va: "vertexAt g1 = vertexAt g" by (rule vertexAt_sameVertices [OF sv1])
  have run: "removeChildEdges (map (vertexAt g) (m # chs)) n g S = Return S' g'"
    using rm r mv by (simp add: va)
  have e'': "edgeList g' = filter (\<lambda>(s, e). s \<noteq> ?n) (edgeList g)"
    by (simp add: e' e1 filter_remove1_other)
  have chs_edges: "\<And>c. c \<in> set chs \<Longrightarrow> (?n, c) \<in> set (edgeList g1)"
  proof -
    fix c assume "c \<in> set chs"
    with ch1 set_childIds [of g1 ?n] show "(?n, c) \<in> set (edgeList g1)" by auto
  qed
  have g1_edges: "\<And>a b. (a, b) \<in> set (edgeList g1) \<Longrightarrow> a = ?n \<and> b \<in> set chs \<or> (a, b) \<in> set (edgeList g')"
  proof -
    fix a b assume ab: "(a, b) \<in> set (edgeList g1)"
    show "a = ?n \<and> b \<in> set chs \<or> (a, b) \<in> set (edgeList g')"
    proof (cases "a = ?n")
      case True
      with ab have "b \<in> set (childIds g1 ?n)" by (simp add: set_childIds)
      with True ch1 show ?thesis by simp
    next
      case False
      with ab show ?thesis by (simp add: e')
    qed
  qed
  have sub': "set (edgeList g') \<subseteq> set (edgeList g1)" by (auto simp: e')
  show ?case
  proof (cases "indegree g1 m = 0")
    case True
    then have m1: "m \<notin> snd ` set (edgeList g1)" by (simp add: indegree_zero)
    with chs_edges have mchs: "m \<notin> set chs" by force
    from m1 sub' have m': "m \<notin> snd ` set (edgeList g')" by blast
    let ?P = "mv # P"
    have "S' = S @ ?P" using S' True by simp
    moreover have "set ?P \<subseteq> set (vertexArray g)" using Psub mv sv1 by (simp add: sameVertices_def)
    moreover have "distinct (map v_id ?P)" using Pd Pset mchs mv by auto
    moreover have "set (map v_id ?P) = {c \<in> set (m # chs). c \<notin> snd ` set (edgeList g')}"
      using Pset m' mv by auto
    ultimately show ?thesis
      using run sv len e'' sameVertices_trans [OF sv1 sv] by blast
  next
    case False
    then have m1: "m \<in> snd ` set (edgeList g1)" by (simp add: indegree_zero)
    have "m \<in> set chs \<or> m \<in> snd ` set (edgeList g')"
    proof -
      from m1 obtain a where "(a, m) \<in> set (edgeList g1)" by auto
      from g1_edges [OF this] show ?thesis by force
    qed
    then have eq: "{c \<in> set (m # chs). c \<notin> snd ` set (edgeList g')}
                 = {c \<in> set chs. c \<notin> snd ` set (edgeList g')}"
      by auto
    have "S' = S @ P" using S' False by simp
    moreover have "set P \<subseteq> set (vertexArray g)" using Psub sv1 by (simp add: sameVertices_def)
    moreover have "set (map v_id P) = {c \<in> set (m # chs). c \<notin> snd ` set (edgeList g')}"
      using Pset eq by simp
    ultimately show ?thesis
      using run sv len e'' Pd sameVertices_trans [OF sv1 sv] by blast
  qed
qed

lemma precedes_append: "precedes xs a b \<Longrightarrow> precedes (xs @ ys) a b"
  by (auto simp: precedes_def takeWhile_append dest: set_takeWhileD)

lemma precedes_last: "b \<notin> set xs \<Longrightarrow> b \<noteq> n \<Longrightarrow> precedes (xs @ [n]) n b"
  by (simp add: precedes_def takeWhile_append)

lemma in_sndI: "(a, b) \<in> A \<Longrightarrow> b \<in> snd ` A"
  by force

lemma in_fstI: "(a, b) \<in> A \<Longrightarrow> a \<in> fst ` A"
  by force

lemma set_endVertexIdArray:
  "length (startVertexIdArray g) = length (endVertexIdArray g) \<Longrightarrow>
   set (endVertexIdArray g) = snd ` set (edgeList g)"
  unfolding edgeList_def by (metis map_snd_zip set_map)

lemma kahnInv_init:
  assumes "wf_digraph g"
  shows "kahnInv g g (getVerticesWithIndegree0 g) []"
proof -
  from assms have len: "length (startVertexIdArray g) = length (endVertexIdArray g)"
    and ids: "vertexIdArray g = map v_id (vertexArray g)"
    and d: "distinct (map v_id (vertexArray g))"
    by (auto simp: wf_digraph_def)
  have S: "getVerticesWithIndegree0 g = filter (\<lambda>v. v_id v \<notin> snd ` set (edgeList g)) (vertexArray g)"
    by (simp add: getVerticesWithIndegree0_def indexOf_None_iff set_endVertexIdArray [OF len])
  have "distinct (map v_id (getVerticesWithIndegree0 g))"
    unfolding S using d by (rule distinct_map_filter)
  moreover have "\<forall>x \<in> set (vertexIdArray g).
      x \<in> set (map v_id (getVerticesWithIndegree0 g)) \<longleftrightarrow> x \<notin> snd ` set (edgeList g)"
    unfolding S ids by (auto dest: in_sndI)
  moreover have "\<forall>(a, b) \<in> set (edgeList g). (a, b) \<in> set (edgeList g) \<or> precedes (map v_id []) a b"
    by blast
  ultimately show ?thesis using len unfolding kahnInv_def S by simp
qed

lemma kahnInv_wf:
  assumes "wf_digraph g0" and "kahnInv g0 g S L"
  shows "wf_digraph g"
  using assms wf_sameVertices [of g0 g] by (simp add: kahnInv_def)

lemma kahnInv_step:
  assumes wf0: "wf_digraph g0" and inv: "kahnInv g0 g S L" and ne: "S \<noteq> []"
  shows "\<exists>S' g'. removeChildEdges (getChildVertices g (v_id (last S))) (last S) g (butlast S)
            = Return S' g' \<and> kahnInv g0 g' S' (L @ [last S])"
proof -
  let ?n = "last S" and ?S0 = "butlast S"
  let ?nid = "v_id ?n"
  have S: "S = ?S0 @ [?n]" using ne by simp
  have wfg: "wf_digraph g" by (rule kahnInv_wf [OF wf0 inv])
  from inv have sv: "sameVertices g0 g"
    and sub: "set (edgeList g) \<subseteq> set (edgeList g0)"
    and SV: "set S \<subseteq> set (vertexArray g0)" and LV: "set L \<subseteq> set (vertexArray g0)"
    and dist: "distinct (map v_id (S @ L))"
    and K4: "\<And>x. x \<in> set (vertexIdArray g0) \<Longrightarrow>
               x \<in> set (map v_id (S @ L)) \<longleftrightarrow> x \<notin> snd ` set (edgeList g)"
    and K5: "\<And>x. x \<in> set (map v_id L) \<Longrightarrow> x \<notin> fst ` set (edgeList g)"
    and K6: "\<And>a b. (a, b) \<in> set (edgeList g0) \<Longrightarrow>
               (a, b) \<in> set (edgeList g) \<or> precedes (map v_id L) a b"
    by (auto simp: kahnInv_def)
  have va: "vertexArray g = vertexArray g0" and vi: "vertexIdArray g = vertexIdArray g0"
    using sv by (simp_all add: sameVertices_def)
  have ids0: "vertexIdArray g0 = map v_id (vertexArray g0)"
    using wf0 by (simp add: wf_digraph_def)
  from removeChildEdges_wf [OF wfg refl, of ?n ?S0] obtain S' g' P where
    run: "removeChildEdges (map (vertexAt g) (childIds g ?nid)) ?n g ?S0 = Return S' g'"
    and sv': "sameVertices g g'"
    and len': "length (startVertexIdArray g') = length (endVertexIdArray g')"
    and e': "edgeList g' = filter (\<lambda>(s, e). s \<noteq> ?nid) (edgeList g)"
    and S': "S' = ?S0 @ P" and PV: "set P \<subseteq> set (vertexArray g)"
    and Pd: "distinct (map v_id P)"
    and Pset: "set (map v_id P) = {m \<in> set (childIds g ?nid). m \<notin> snd ` set (edgeList g')}"
    by blast
  have sub': "set (edgeList g') \<subseteq> set (edgeList g)" by (auto simp: e')
  have endp: "\<And>a b. (a, b) \<in> set (edgeList g) \<Longrightarrow>
      a \<in> set (vertexIdArray g0) \<and> b \<in> set (vertexIdArray g0)"
    using edge_endpoints_wf [OF wfg] vi by simp
  have nS: "?nid \<in> set (map v_id (S @ L))" using ne by (metis S UnCI image_eqI last_in_set set_append set_map)
  have nV: "?nid \<in> set (vertexIdArray g0)" using SV ids0 last_in_set [OF ne] by auto
  have n_in0: "?nid \<notin> snd ` set (edgeList g)" using K4 [OF nV] nS by simp
  have Pfresh: "\<And>p. p \<in> set (map v_id P) \<Longrightarrow> p \<notin> set (map v_id (S @ L))"
  proof -
    fix p assume "p \<in> set (map v_id P)"
    with Pset have "(?nid, p) \<in> set (edgeList g)" by (simp add: set_childIds)
    then have "p \<in> set (vertexIdArray g0)" "p \<in> snd ` set (edgeList g)"
      using endp by force+
    with K4 show "p \<notin> set (map v_id (S @ L))" by simp
  qed
  have k1: "sameVertices g0 g'" by (rule sameVertices_trans [OF sv sv'])
  have k2: "set (edgeList g') \<subseteq> set (edgeList g0)" using sub sub' by blast
  have k3: "set S' \<subseteq> set (vertexArray g0)"
    using SV PV va S' by (auto dest: in_set_butlastD)
  have k4: "set (L @ [?n]) \<subseteq> set (vertexArray g0)" using LV SV ne by auto
  have k5: "distinct (map v_id (S' @ L @ [?n]))"
  proof -
    from dist S have d0: "distinct (map v_id ?S0 @ [?nid] @ map v_id L)"
      by (metis append_assoc list.simps(8,9) map_append)
    have "set (map v_id P) \<inter> (set (map v_id ?S0) \<union> {?nid} \<union> set (map v_id L)) = {}"
    proof -
      have "set (map v_id (S @ L)) = set (map v_id ?S0) \<union> {?nid} \<union> set (map v_id L)"
        by (subst S) auto
      with Pfresh show ?thesis by blast
    qed
    with d0 Pd show ?thesis by (auto simp: S')
  qed
  have idsSL: "set (map v_id (S' @ L @ [?n])) = set (map v_id (S @ L)) \<union> set (map v_id P)"
  proof -
    have "set (map v_id (S @ L)) = set (map v_id ?S0) \<union> {?nid} \<union> set (map v_id L)"
      by (subst S) auto
    then show ?thesis by (auto simp: S')
  qed
  have k6: "\<forall>x \<in> set (vertexIdArray g0).
      x \<in> set (map v_id (S' @ L @ [?n])) \<longleftrightarrow> x \<notin> snd ` set (edgeList g')"
  proof
    fix x assume x: "x \<in> set (vertexIdArray g0)"
    show "x \<in> set (map v_id (S' @ L @ [?n])) \<longleftrightarrow> x \<notin> snd ` set (edgeList g')"
    proof
      assume "x \<in> set (map v_id (S' @ L @ [?n]))"
      with idsSL have "x \<in> set (map v_id (S @ L)) \<or> x \<in> set (map v_id P)" by simp
      then show "x \<notin> snd ` set (edgeList g')"
      proof
        assume "x \<in> set (map v_id (S @ L))"
        with K4 [OF x] sub' show ?thesis by blast
      next
        assume "x \<in> set (map v_id P)"
        with Pset show ?thesis by simp
      qed
    next
      assume x': "x \<notin> snd ` set (edgeList g')"
      show "x \<in> set (map v_id (S' @ L @ [?n]))"
      proof (cases "x \<in> snd ` set (edgeList g)")
        case False
        with K4 [OF x] idsSL show ?thesis by simp
      next
        case True
        then obtain a where a: "(a, x) \<in> set (edgeList g)" by auto
        with x' have "a = ?nid" by (force simp: e')
        with a have "x \<in> set (childIds g ?nid)" by (simp add: set_childIds)
        with x' Pset idsSL show ?thesis by simp
      qed
    qed
  qed
  have k7: "\<forall>x \<in> set (map v_id (L @ [?n])). x \<notin> fst ` set (edgeList g')"
  proof
    fix x assume "x \<in> set (map v_id (L @ [?n]))"
    then have "x \<in> set (map v_id L) \<or> x = ?nid" by auto
    then show "x \<notin> fst ` set (edgeList g')"
    proof
      assume "x \<in> set (map v_id L)"
      from K5 [OF this] sub' show ?thesis by blast
    next
      assume "x = ?nid"
      then show ?thesis by (force simp: e')
    qed
  qed
  have k8: "\<forall>(a, b) \<in> set (edgeList g0).
      (a, b) \<in> set (edgeList g') \<or> precedes (map v_id (L @ [?n])) a b"
  proof (clarify)
    fix a b assume ab: "(a, b) \<in> set (edgeList g0)" and nab: "\<not> precedes (map v_id (L @ [?n])) a b"
    from K6 [OF ab] show "(a, b) \<in> set (edgeList g')"
    proof
      assume p: "precedes (map v_id L) a b"
      from precedes_append [OF p, of "[?nid]"] nab show ?thesis by simp
    next
      assume abg: "(a, b) \<in> set (edgeList g)"
      show ?thesis
      proof (cases "a = ?nid")
        case False
        with abg show ?thesis by (simp add: e')
      next
        case True
        from abg have bin: "b \<in> snd ` set (edgeList g)" by force
        with n_in0 have bn: "b \<noteq> ?nid" by blast
        from abg endp have "b \<in> set (vertexIdArray g0)" by blast
        from K4 [OF this] bin have "b \<notin> set (map v_id L)" by simp
        from precedes_last [OF this bn] True nab show ?thesis by simp
      qed
    qed
  qed
  have "kahnInv g0 g' S' (L @ [?n])"
    unfolding kahnInv_def using k1 len' k2 k3 k4 k5 k6 k7 k8 by simp
  with run show ?thesis by (auto simp: getChildVertices_childIds)
qed

lemma kahnLoop_inv:
  assumes "wf_digraph g0" and "kahnInv g0 g S L"
  shows "\<exists>L' g'. kahnLoop g S L = Return L' g' \<and> kahnInv g0 g' [] L'"
  using assms(2)
proof (induction g S L rule: kahnLoop.induct)
  case (1 g S L)
  show ?case
  proof (cases "S = []")
    case True
    with "1.prems" show ?thesis by (simp add: kahnLoop.simps [of g "[]" L])
  next
    case False
    from kahnInv_step [OF assms(1) "1.prems" False] obtain S' g' where
      r: "removeChildEdges (getChildVertices g (v_id (last S))) (last S) g (butlast S) = Return S' g'"
      and inv': "kahnInv g0 g' S' (L @ [last S])"
      by blast
    from "1.IH" [OF False r inv'] False r show ?thesis
      by (simp add: kahnLoop.simps [of g S L])
  qed
qed

lemma setEdgeInfo_restore: "sameVertices g0 g' \<Longrightarrow> setEdgeInfo g' (getEdgeInfo g0) = g0"
  by (cases g0, cases g') (simp add: sameVertices_def setEdgeInfo_def getEdgeInfo_def)

lemma edgeCount_edgeList:
  "length (startVertexIdArray g) = length (endVertexIdArray g) \<Longrightarrow>
   edgeCount g > 0 \<longleftrightarrow> edgeList g \<noteq> []"
  by (cases "startVertexIdArray g"; cases "endVertexIdArray g") (simp_all add: edgeCount_def edgeList_def)

lemma topologicalSort_wf:
  assumes "wf_digraph g"
  shows "\<exists>L' g'. kahnInv g g' [] L' \<and>
           topologicalSort g = Return (if edgeList g' \<noteq> [] then [] else L') g"
proof -
  from kahnLoop_inv [OF assms kahnInv_init [OF assms]] obtain L' g' where
    r: "kahnLoop g (getVerticesWithIndegree0 g) [] = Return L' g'" and inv: "kahnInv g g' [] L'"
    by blast
  from inv have sv: "sameVertices g g'"
    and len: "length (startVertexIdArray g') = length (endVertexIdArray g')"
    by (simp_all add: kahnInv_def)
  have "topologicalSort g = Return (if edgeList g' \<noteq> [] then [] else L') g"
    using r edgeCount_edgeList [OF len] setEdgeInfo_restore [OF sv]
    by (simp add: topologicalSort_def Let_def)
  with inv show ?thesis by blast
qed

lemma no_source_cycle:
  assumes "finite R" and "R \<noteq> {}" and "\<And>a b. (a, b) \<in> R \<Longrightarrow> \<exists>c. (c, a) \<in> R"
  shows "\<not> acyclic R"
proof
  assume "acyclic R"
  with assms(1) have "wf R" by (rule finite_acyclic_wf)
  from assms(2) obtain a b where ab: "(a, b) \<in> R" by auto
  then have "a \<in> fst ` R" by force
  with \<open>wf R\<close> obtain z where z: "z \<in> fst ` R" and min: "\<And>y. (y, z) \<in> R \<Longrightarrow> y \<notin> fst ` R"
    by (rule wfE_min) blast
  from z obtain w where "(z, w) \<in> R" by auto
  from assms(3) [OF this] obtain c where c: "(c, z) \<in> R" by blast
  then have "c \<in> fst ` R" by force
  with min [OF c] show False by blast
qed

lemma increasing_acyclic:
  fixes f :: "'a \<Rightarrow> nat"
  assumes "\<And>a b. (a, b) \<in> R \<Longrightarrow> f a < f b"
  shows "acyclic R"
proof (rule acyclicI, rule allI)
  fix x
  have "\<And>a b. (a, b) \<in> R\<^sup>+ \<Longrightarrow> f a < f b"
  proof -
    fix a b show "(a, b) \<in> R\<^sup>+ \<Longrightarrow> f a < f b"
      by (induction rule: trancl.induct) (auto dest: assms)
  qed
  from this [of x x] show "(x, x) \<notin> R\<^sup>+" by auto
qed

lemma precedes_position:
  "precedes xs a b \<Longrightarrow> length (takeWhile (\<lambda>y. y \<noteq> a) xs) < length (takeWhile (\<lambda>y. y \<noteq> b) xs)"
  unfolding precedes_def by (induction xs) (auto split: if_splits)

lemma position_nth:
  "a \<in> set xs \<Longrightarrow> length (takeWhile (\<lambda>y. y \<noteq> a) xs) < length xs \<and>
     xs ! length (takeWhile (\<lambda>y. y \<noteq> a) xs) = a"
  by (induction xs) auto

lemma precedes_indices:
  assumes "precedes xs a b" and "b \<in> set xs"
  shows "\<exists>j k. j < k \<and> k < length xs \<and> xs ! j = a \<and> xs ! k = b"
proof -
  from assms(1) have "a \<in> set xs" by (auto simp: precedes_def dest: set_takeWhileD)
  from position_nth [OF this] position_nth [OF assms(2)] precedes_position [OF assms(1)]
  show ?thesis by blast
qed

text \<open>The two ways the loop can end.\<close>

lemma kahn_edges_left:
  assumes wf: "wf_digraph g" and inv: "kahnInv g g' [] L'" and ne: "edgeList g' \<noteq> []"
  shows "hasCycle g"
proof -
  let ?R = "set (edgeList g')"
  from inv have sub: "?R \<subseteq> set (edgeList g)"
    and K4: "\<And>x. x \<in> set (vertexIdArray g) \<Longrightarrow> x \<in> set (map v_id L') \<longleftrightarrow> x \<notin> snd ` ?R"
    and K5: "\<And>x. x \<in> set (map v_id L') \<Longrightarrow> x \<notin> fst ` ?R"
    by (auto simp: kahnInv_def)
  have "\<not> acyclic ?R"
  proof (rule no_source_cycle)
    show "finite ?R" by simp
    show "?R \<noteq> {}" using ne by simp
  next
    fix a b assume ab: "(a, b) \<in> ?R"
    with sub edge_endpoints_wf [OF wf, of a b] have a: "a \<in> set (vertexIdArray g)" by blast
    from ab have "a \<in> fst ` ?R" by (rule in_fstI)
    with K5 have "a \<notin> set (map v_id L')" by blast
    with K4 [OF a] have "a \<in> snd ` ?R" by simp
    then show "\<exists>c. (c, a) \<in> ?R" by auto
  qed
  with sub show ?thesis unfolding hasCycle_def by (meson acyclic_subset)
qed

lemma kahn_no_edges_left:
  assumes wf: "wf_digraph g" and inv: "kahnInv g g' [] L'" and e: "edgeList g' = []"
  shows "\<not> hasCycle g \<and> distinct (map v_id L') \<and> set L' = set (vertexArray g) \<and>
         (\<forall>(s, e) \<in> set (edgeList g).
            \<exists>j k. j < k \<and> k < length L' \<and> v_id (L' ! j) = s \<and> v_id (L' ! k) = e)"
proof -
  from inv e have LV: "set L' \<subseteq> set (vertexArray g)" and d: "distinct (map v_id L')"
    and K4: "\<And>x. x \<in> set (vertexIdArray g) \<Longrightarrow> x \<in> set (map v_id L')"
    and K6: "\<And>a b. (a, b) \<in> set (edgeList g) \<Longrightarrow> precedes (map v_id L') a b"
    by (auto simp: kahnInv_def)
  from wf have ids: "vertexIdArray g = map v_id (vertexArray g)"
    and dv: "distinct (map v_id (vertexArray g))"
    by (auto simp: wf_digraph_def)
  have "acyclic (set (edgeList g))"
    by (rule increasing_acyclic [of _ "\<lambda>x. length (takeWhile (\<lambda>y. y \<noteq> x) (map v_id L'))"])
       (rule precedes_position [OF K6])
  then have c: "\<not> hasCycle g" by (simp add: hasCycle_def)
  have "set (vertexArray g) \<subseteq> set L'"
  proof
    fix v assume v: "v \<in> set (vertexArray g)"
    then have "v_id v \<in> set (vertexIdArray g)" by (simp add: ids)
    from K4 [OF this] obtain u where u: "u \<in> set L'" "v_id u = v_id v" by auto
    with LV have "u \<in> set (vertexArray g)" by blast
    with dv v u(2) have "u = v" by (auto simp: distinct_map dest: inj_onD)
    with u(1) show "v \<in> set L'" by simp
  qed
  with LV have s: "set L' = set (vertexArray g)" by blast
  have o: "\<forall>(s, e) \<in> set (edgeList g).
            \<exists>j k. j < k \<and> k < length L' \<and> v_id (L' ! j) = s \<and> v_id (L' ! k) = e"
  proof (clarify)
    fix a b assume ab: "(a, b) \<in> set (edgeList g)"
    from edge_endpoints_wf [OF wf ab] K4 have "b \<in> set (map v_id L')" by blast
    from precedes_indices [OF K6 [OF ab] this] obtain j k where
      "j < k" "k < length L'" "map v_id L' ! j = a" "map v_id L' ! k = b" by auto
    then show "\<exists>j k. j < k \<and> k < length L' \<and> v_id (L' ! j) = a \<and> v_id (L' ! k) = b"
      by (intro exI [of _ j] exI [of _ k]) simp
  qed
  from c d s o show ?thesis by blast
qed

text \<open>The result of the sort on a well-formed graph.\<close>

lemma topologicalSort_kahn:
  assumes "wf_digraph g"
  shows "\<exists>L. topologicalSort g = Return L g \<and>
           (L = [] \<longleftrightarrow> hasCycle g \<or> vertexArray g = []) \<and>
           (hasCycle g \<or>
              distinct (map v_id L) \<and> set L = set (vertexArray g) \<and>
              (\<forall>(s, e) \<in> set (edgeList g).
                 \<exists>j k. j < k \<and> k < length L \<and> v_id (L ! j) = s \<and> v_id (L ! k) = e))"
proof -
  from topologicalSort_wf [OF assms] obtain L' g' where inv: "kahnInv g g' [] L'"
    and r: "topologicalSort g = Return (if edgeList g' \<noteq> [] then [] else L') g"
    by blast
  show ?thesis
  proof (cases "edgeList g' = []")
    case False
    from kahn_edges_left [OF assms inv False] have c: "hasCycle g" .
    from r False have r': "topologicalSort g = Return [] g" by simp
    show ?thesis
    proof (intro exI conjI)
      show "topologicalSort g = Return [] g" by (rule r')
      show "([] = []) = (hasCycle g \<or> vertexArray g = [])" using c by simp
      show "hasCycle g \<or>
              distinct (map v_id []) \<and> set [] = set (vertexArray g) \<and>
              (\<forall>(s, e) \<in> set (edgeList g).
                 \<exists>j k. j < k \<and> k < length [] \<and> v_id ([] ! j) = s \<and> v_id ([] ! k) = e)"
        using c by (rule disjI1)
    qed
  next
    case True
    note all = kahn_no_edges_left [OF assms inv True]
    from all have c: "\<not> hasCycle g" by (rule conjunct1)
    from all have rest: "distinct (map v_id L') \<and> set L' = set (vertexArray g) \<and>
         (\<forall>(s, e) \<in> set (edgeList g).
            \<exists>j k. j < k \<and> k < length L' \<and> v_id (L' ! j) = s \<and> v_id (L' ! k) = e)"
      by (rule conjunct2)
    from rest have s: "set L' = set (vertexArray g)" by (elim conjE)
    have e: "L' = [] \<longleftrightarrow> vertexArray g = []"
    proof
      assume "L' = []" with s show "vertexArray g = []" by simp
    next
      assume "vertexArray g = []" with s show "L' = []" by simp
    qed
    from r True have r': "topologicalSort g = Return L' g" by simp
    show ?thesis
    proof (intro exI conjI)
      show "topologicalSort g = Return L' g" by (rule r')
      show "(L' = []) = (hasCycle g \<or> vertexArray g = [])" using e c by simp
      show "hasCycle g \<or>
              distinct (map v_id L') \<and> set L' = set (vertexArray g) \<and>
              (\<forall>(s, e) \<in> set (edgeList g).
                 \<exists>j k. j < k \<and> k < length L' \<and> v_id (L' ! j) = s \<and> v_id (L' ! k) = e)"
        using rest by (rule disjI2)
    qed
  qed
qed

section \<open>The counter of running processes\<close>



















section \<open>The success handler as a method of its vertex\<close>

lemma processSuccessful_as_method:
  "processSuccessful w ident (VertexObject ident) d =
     onKeeper
       (w\<lparr>keeper := (keeper w)\<lparr>graph := (graph (keeper w))\<lparr>vertexArray :=
            map (\<lambda>v. if v_id v = ident then v\<lparr>v_data := d\<rparr> else v)
              (vertexArray (graph (keeper w)))\<rparr>\<rparr>\<rparr>)
       (\<lambda>p. setState p ident ''SUCCESS'')"
  by (simp add: processSuccessful_def writeData_def)

section \<open>C1: the final callback is called at most once in a campaign\<close>

text \<open>
  C1: after \<^verbatim>\<open>start\<close>, whatever calls of \<^verbatim>\<open>setState\<close> follow (any vertices, any states, in
  any order and number, throwing or not), the log of calls of \<^verbatim>\<open>finalCallback\<close> is the
  log before \<^verbatim>\<open>start\<close> with at most one more entry, and when there is one the flag
  \<open>finalCallbackExecuted\<close> is set.
\<close>

theorem finalCallback_at_most_once:
  "\<exists>cs. finalCallbackCalls (deliver (stateOf (start p sharedData)) events) = finalCallbackCalls p @ cs
        \<and> length cs \<le> 1
        \<and> (cs = [] \<or> finalCallbackExecuted (deliver (stateOf (start p sharedData)) events))"
  using callbackStep_deliver [of "stateOf (start p sharedData)" events] start_callbacks [of p sharedData]
  by (auto simp: callbackStep_def)

theorem finalCallback_at_most_once_witness:
  "(\<exists>cs. finalCallbackCalls
          (deliver (stateOf (start chainKeeper []))
             [(''A'', ''SUCCESS''), (''B'', ''SUCCESS''), (''C'', ''SUCCESS''), (''C'', ''SUCCESS'')])
        = finalCallbackCalls chainKeeper @ cs \<and> length cs \<le> 1 \<and>
        (cs = [] \<or> finalCallbackExecuted
          (deliver (stateOf (start chainKeeper []))
             [(''A'', ''SUCCESS''), (''B'', ''SUCCESS''), (''C'', ''SUCCESS''), (''C'', ''SUCCESS'')])))
   \<and> finalCallbackCalls
          (deliver (stateOf (start chainKeeper []))
             [(''A'', ''SUCCESS''), (''B'', ''SUCCESS''), (''C'', ''SUCCESS''), (''C'', ''SUCCESS'')])
       = [(None, [])]"
proof -
  have "finalCallbackCalls
          (deliver (stateOf (start chainKeeper []))
             [(''A'', ''SUCCESS''), (''B'', ''SUCCESS''), (''C'', ''SUCCESS''), (''C'', ''SUCCESS'')])
       = [(None, [])]"
    by code_simp
  with finalCallback_at_most_once [of chainKeeper "[]"
      "[(''A'', ''SUCCESS''), (''B'', ''SUCCESS''), (''C'', ''SUCCESS''), (''C'', ''SUCCESS'')]"]
  show ?thesis by blast
qed

section \<open>C2: what one propagation computes\<close>

text \<open>
  C2: on a well-formed graph, with a topological order that lists vertices of the graph
  and is as long as the graph has vertices, \<^verbatim>\<open>updateStates\<close> returns, and every vertex of
  the order gets the state that the rule of the specification gives for the states before
  the call (its own and its parents'); every other vertex, and everything else in the
  scheduler but the log of start signals, stays as it was.
\<close>

theorem updateStates_propagates:
  assumes "wf_digraph (graph p)"
    and "topologicalSortOrder p = Some order"
    and "length order = vertexCount (graph p)"
    and "set order \<subseteq> set (vertexIdArray (graph p))"
  shows "\<exists>sig. updateStates p =
     Return ()
       (p\<lparr>graph := (graph p)\<lparr>vertexArray :=
             map (\<lambda>v. if v_id v \<in> set order
                       then v\<lparr>v_state := propagationRule (indegree (graph p) (v_id v)) (v_state v)
                                               (parentStates (graph p) (v_id v))\<rparr>
                       else v)
               (vertexArray (graph p))\<rparr>,
          startSignals := sig\<rparr>)"
  using updateStates_Return [OF assms(1) topoEntries_order [OF assms(2,3)] assms(4)]
  unfolding updVertices_def propagated_def .

theorem updateStates_propagates_witness:
  "wf_digraph (graph chainAfterSuccess) \<and>
   topologicalSortOrder chainAfterSuccess = Some [''A'', ''B'', ''C''] \<and>
   map v_state (vertexArray (graph chainAfterSuccess)) = [SUCCESS, NOT_READY, NOT_READY] \<and>
   returned (updateStates chainAfterSuccess) \<and>
   map v_state (vertexArray (graph (stateOf (updateStates chainAfterSuccess)))) = [SUCCESS, READY, NOT_READY]"
proof -
  have wf: "wf_digraph (graph chainAfterSuccess)" by (rule wf_chainAfterSuccess)
  have order: "topologicalSortOrder chainAfterSuccess = Some [''A'', ''B'', ''C'']"
    by (simp add: chainAfterSuccess_eq)
  have len: "length [''A'', ''B'', ''C''] = vertexCount (graph chainAfterSuccess)"
    by (simp add: chainAfterSuccess_eq vertexCount_def)
  have sub: "set [''A'', ''B'', ''C''] \<subseteq> set (vertexIdArray (graph chainAfterSuccess))"
    by (simp add: chainAfterSuccess_eq)
  from updateStates_propagates [OF wf order len sub] obtain sig where
    "updateStates chainAfterSuccess =
     Return ()
       (chainAfterSuccess\<lparr>graph := (graph chainAfterSuccess)\<lparr>vertexArray :=
             map (\<lambda>v. if v_id v \<in> set [''A'', ''B'', ''C'']
                       then v\<lparr>v_state := propagationRule (indegree (graph chainAfterSuccess) (v_id v)) (v_state v)
                                               (parentStates (graph chainAfterSuccess) (v_id v))\<rparr>
                       else v)
               (vertexArray (graph chainAfterSuccess))\<rparr>,
          startSignals := sig\<rparr>)"
    by blast
  then have "returned (updateStates chainAfterSuccess) \<and>
    map v_state (vertexArray (graph (stateOf (updateStates chainAfterSuccess)))) = [SUCCESS, READY, NOT_READY]"
    by (simp add: chainAfterSuccess_eq propagationRule_def parentStates_def indegree_def edgeList_def)
  with wf order show ?thesis by (simp add: chainAfterSuccess_eq)
qed

section \<open>C3: the result of the topological sort\<close>

text \<open>
  C3 as amended: on a well-formed graph \<^verbatim>\<open>topologicalSort\<close> returns the empty list if and
  only if the graph has a cycle or has no vertex; when the graph has no cycle the list
  returned has every vertex of the graph, no id twice, and the start of every edge stands
  before its end.
\<close>

theorem topologicalSort_order:
  assumes "wf_digraph g"
  shows "\<exists>L. topologicalSort g = Return L g \<and>
           (L = [] \<longleftrightarrow> hasCycle g \<or> vertexArray g = []) \<and>
           (\<not> hasCycle g \<longrightarrow>
              distinct (map v_id L) \<and> set L = set (vertexArray g) \<and>
              (\<forall>(s, e) \<in> set (edgeList g).
                 \<exists>j k. j < k \<and> k < length L \<and> v_id (L ! j) = s \<and> v_id (L ! k) = e))"
proof -
  from topologicalSort_kahn [OF assms] obtain L where
    r: "topologicalSort g = Return L g"
    and e: "L = [] \<longleftrightarrow> hasCycle g \<or> vertexArray g = []"
    and o: "hasCycle g \<or>
              distinct (map v_id L) \<and> set L = set (vertexArray g) \<and>
              (\<forall>(s, e) \<in> set (edgeList g).
                 \<exists>j k. j < k \<and> k < length L \<and> v_id (L ! j) = s \<and> v_id (L ! k) = e)"
    by (elim exE conjE)
  have c3: "\<not> hasCycle g \<longrightarrow>
              distinct (map v_id L) \<and> set L = set (vertexArray g) \<and>
              (\<forall>(s, e) \<in> set (edgeList g).
                 \<exists>j k. j < k \<and> k < length L \<and> v_id (L ! j) = s \<and> v_id (L ! k) = e)"
  proof (rule impI)
    assume n: "\<not> hasCycle g"
    from o show "distinct (map v_id L) \<and> set L = set (vertexArray g) \<and>
              (\<forall>(s, e) \<in> set (edgeList g).
                 \<exists>j k. j < k \<and> k < length L \<and> v_id (L ! j) = s \<and> v_id (L ! k) = e)"
    proof (rule disjE)
      assume "hasCycle g"
      with n show ?thesis by (rule notE)
    next
      assume "distinct (map v_id L) \<and> set L = set (vertexArray g) \<and>
              (\<forall>(s, e) \<in> set (edgeList g).
                 \<exists>j k. j < k \<and> k < length L \<and> v_id (L ! j) = s \<and> v_id (L ! k) = e)"
      then show ?thesis .
    qed
  qed
  show ?thesis
    apply (rule exI [of _ L])
    apply (rule conjI [OF r])
    apply (rule conjI [OF e])
    apply (rule c3)
    done
qed

theorem topologicalSort_order_witness:
  "wf_digraph chainABC \<and> topologicalSort chainABC = Return (vertexArray chainABC) chainABC \<and>
   \<not> hasCycle chainABC"
proof -
  have run: "topologicalSort chainABC = Return (vertexArray chainABC) chainABC" by code_simp
  from topologicalSort_order [OF wf_chainABC] obtain L where
    L: "topologicalSort chainABC = Return L chainABC"
    and e: "L = [] \<longleftrightarrow> hasCycle chainABC \<or> vertexArray chainABC = []"
    by (elim exE conjE)
  from L run have "L = vertexArray chainABC" by simp
  then have "L \<noteq> []" by (simp add: chainABC_eq)
  with e have "\<not> hasCycle chainABC" by blast
  with wf_chainABC run show ?thesis by (intro conjI)
qed

text \<open>
  C3 as stated fails on the graph with no vertex: the list returned is empty and the
  graph has no cycle.
\<close>

theorem topologicalSort_empty_graph:
  "topologicalSort emptyDigraph = Return [] emptyDigraph \<and> \<not> hasCycle emptyDigraph"
proof
  show "topologicalSort emptyDigraph = Return [] emptyDigraph" by code_simp
  show "\<not> hasCycle emptyDigraph"
    by (simp add: hasCycle_def edgeList_def emptyDigraph_def acyclic_def)
qed

section \<open>C4: the number of running processes\<close>




section \<open>C5: the topological sort restores the edges\<close>

text \<open>
  C5: whenever \<^verbatim>\<open>topologicalSort\<close> returns, on either path and for every graph, the two
  edge arrays after the call are the arrays before it, and so is the multiset of the
  edges; on a well-formed graph it does return, and the graph after the call is the graph
  before it.
\<close>

theorem topologicalSort_non_destructive:
  "(wf_digraph g \<longrightarrow> (\<exists>L. topologicalSort g = Return L g)) \<and>
   (\<forall>L g'. topologicalSort g = Return L g' \<longrightarrow>
      startVertexIdArray g' = startVertexIdArray g \<and>
      endVertexIdArray g' = endVertexIdArray g \<and>
      mset (edgeList g') = mset (edgeList g))"
proof (intro conjI impI allI)
  assume "wf_digraph g"
  from topologicalSort_wf [OF this] show "\<exists>L. topologicalSort g = Return L g" by blast
next
  fix L g' assume r: "topologicalSort g = Return L g'"
  have "\<exists>g''. g' = setEdgeInfo g'' (getEdgeInfo g)"
  proof (cases "kahnLoop g (getVerticesWithIndegree0 g) []")
    case (Return L' g'')
    with r have "g' = setEdgeInfo g'' (getEdgeInfo g)"
      by (simp add: topologicalSort_def Let_def split: if_splits)
    then show ?thesis ..
  next
    case (Throw e g'')
    with r show ?thesis by (simp add: topologicalSort_def Let_def)
  qed
  then obtain g'' where g': "g' = setEdgeInfo g'' (getEdgeInfo g)" ..
  then show "startVertexIdArray g' = startVertexIdArray g"
    by (simp add: setEdgeInfo_def getEdgeInfo_def)
  from g' show "endVertexIdArray g' = endVertexIdArray g"
    by (simp add: setEdgeInfo_def getEdgeInfo_def)
  from g' show "mset (edgeList g') = mset (edgeList g)"
    by (simp add: setEdgeInfo_def getEdgeInfo_def edgeList_def)
qed

theorem topologicalSort_non_destructive_witness:
  "wf_digraph cycleAB \<and> topologicalSort cycleAB = Return [] cycleAB \<and>
   wf_digraph chainABC \<and> topologicalSort chainABC = Return (vertexArray chainABC) chainABC"
proof -
  have wf: "wf_digraph cycleAB" by (simp add: cycleAB_eq wf_digraph_def)
  have "topologicalSort cycleAB = Return [] (stateOf (topologicalSort cycleAB))" by code_simp
  moreover from topologicalSort_non_destructive [of cycleAB] wf
  obtain L where "topologicalSort cycleAB = Return L cycleAB" by blast
  ultimately have cyc: "topologicalSort cycleAB = Return [] cycleAB" by simp
  have "topologicalSort chainABC = Return (vertexArray chainABC) (stateOf (topologicalSort chainABC))"
    by code_simp
  moreover from topologicalSort_non_destructive [of chainABC] wf_chainABC
  obtain L where "topologicalSort chainABC = Return L chainABC" by blast
  ultimately have ch: "topologicalSort chainABC = Return (vertexArray chainABC) chainABC" by simp
  from wf cyc wf_chainABC ch show ?thesis by (intro conjI)
qed

section \<open>C6: propagating twice\<close>




section \<open>C7: a failure when the scheduler keeps going\<close>

text \<open>
  C7 says that after a FAIL with \<open>quitOnFailure\<close> false the scheduler propagates once more
  and then fires the Failed States callback if every vertex is final and one has failed.
  The code computes \<open>allStatesFinal\<close> and \<open>someStateFailed\<close> before the second
  propagation and tests these old values after it. On the chain \<open>A \<rightarrow> B \<rightarrow> C\<close>, when
  \<open>A\<close> fails, the two propagations make \<open>B\<close> and then \<open>C\<close> FAIL, every vertex is final, and
  the callback is not called.
\<close>

theorem setState_FAIL_chain_no_callback:
  "map v_state (vertexArray (graph (stateOf (setState (stateOf (start chainKeeper [])) ''A'' ''FAIL''))))
     = [FAIL, FAIL, FAIL]
   \<and> finalCallbackCalls (stateOf (setState (stateOf (start chainKeeper [])) ''A'' ''FAIL'')) = []
   \<and> returned (setState (stateOf (start chainKeeper [])) ''A'' ''FAIL'')"
  by code_simp

section \<open>C8: removing a vertex\<close>

text \<open>
  C8 says that \<^verbatim>\<open>addVertex(id)\<close> followed by \<^verbatim>\<open>removeVertex(id)\<close> restores the vertex and
  edge counts. The code does not: \<^verbatim>\<open>removeVertex\<close> tests \<^verbatim>\<open>vertexIdArray.index(vertexId)\<close>,
  and the call throws before anything is removed. After \<^verbatim>\<open>addVertex("A")\<close> on the empty
  graph, \<^verbatim>\<open>removeVertex("A")\<close> throws and the graph still has one vertex.
\<close>

theorem removeVertex_after_addVertex_throws:
  "removeVertex (stateOf (addVertex emptyDigraph ''A'' [])) ''A''
     = Throw TypeError (stateOf (addVertex emptyDigraph ''A'' []))
   \<and> vertexCount (stateOf (addVertex emptyDigraph ''A'' [])) = 1
   \<and> vertexCount emptyDigraph = 0"
  by (simp add: removeVertex_def array_index_def addVertex_def emptyDigraph_def vertexCount_def Let_def)

section \<open>C9: the success handler\<close>

text \<open>
  C9 says that the success handler records the data of the task in the vertex. With the
  wiring of \<^verbatim>\<open>PigeonKeeper.addVertex\<close> the handler runs with \<^verbatim>\<open>this\<close> bound to the service:
  when the task of \<open>A\<close> emits "success" with \<^verbatim>\<open>{id: "A"}\<close>, the vertex goes from IN_PROGRESS
  to SUCCESS, its data is still \<^verbatim>\<open>{}\<close>, and the data is on the service object.
\<close>

theorem success_data_not_recorded:
  "map v_state (vertexArray (graph (keeper oneTask))) = [IN_PROGRESS] \<and>
   map v_state (vertexArray (graph (keeper
      (stateOf (emitSuccess oneTask ''serviceA'' [(''id'', ''A'')]))))) = [SUCCESS] \<and>
   map v_data (vertexArray (graph (keeper
      (stateOf (emitSuccess oneTask ''serviceA'' [(''id'', ''A'')]))))) = [[]] \<and>
   service_data (services (stateOf (emitSuccess oneTask ''serviceA'' [(''id'', ''A'')])) ''serviceA'')
     = Some [(''id'', ''A'')]"
  by code_simp

section \<open>C10: setting a vertex to NOT_READY or READY\<close>

text \<open>
  C10: for a vertex of the graph and a new state NOT_READY or READY, \<^verbatim>\<open>setState\<close> returns
  and the scheduler afterwards is the scheduler before with the state of that one vertex
  replaced: the counters, the flags, the results, the edges, the other vertices and both
  logs (no callback, no start signal) are as before.
\<close>

theorem setState_NOT_READY_READY_frame:
  assumes "wf_digraph (graph p)" and "hasVertexId (graph p) vertexId"
    and "s = NOT_READY \<or> s = READY"
  shows "\<exists>i < length (vertexArray (graph p)). vertexIdArray (graph p) ! i = vertexId \<and>
     setState p vertexId (stateName s) =
       Return () (p\<lparr>graph := (graph p)\<lparr>vertexArray :=
          (vertexArray (graph p))[i := (vertexArray (graph p) ! i)\<lparr>v_state := s\<rparr>]\<rparr>\<rparr>)"
proof -
  from assms(2) obtain i where i: "indexOf (vertexIdArray (graph p)) vertexId = Some i"
    by (auto simp: hasVertexId_def)
  from indexOf_Some_nth [OF i] assms(1) have lt: "i < length (vertexArray (graph p))"
    and nth: "vertexIdArray (graph p) ! i = vertexId"
    by (auto simp: wf_digraph_def)
  from assms(3) have "setState p vertexId (stateName s) =
       Return () (p\<lparr>graph := (graph p)\<lparr>vertexArray :=
          (vertexArray (graph p))[i := (vertexArray (graph p) ! i)\<lparr>v_state := s\<rparr>]\<rparr>\<rparr>)"
    using assms(2) i lt
    by (auto simp: setState_def setVertexState_def Vertex_setState_def parseState_def)
  with lt nth show ?thesis by blast
qed

theorem setState_NOT_READY_READY_frame_witness:
  "wf_digraph (graph chainKeeper) \<and> hasVertexId (graph chainKeeper) ''B'' \<and>
   setState chainKeeper ''B'' (stateName READY) =
     Return () (chainKeeper\<lparr>graph := (graph chainKeeper)\<lparr>vertexArray :=
        (vertexArray (graph chainKeeper))[1 :=
           (vertexArray (graph chainKeeper) ! 1)\<lparr>v_state := READY\<rparr>]\<rparr>\<rparr>)"
proof -
  have wf: "wf_digraph (graph chainKeeper)"
    by (simp add: chainKeeper_def chainABC_eq wf_digraph_def)
  have has: "hasVertexId (graph chainKeeper) ''B''"
    by (simp add: chainKeeper_def chainABC_eq hasVertexId_def)
  from setState_NOT_READY_READY_frame [OF wf has, of READY] obtain i where
    "i < length (vertexArray (graph chainKeeper))" "vertexIdArray (graph chainKeeper) ! i = ''B''"
    and eq: "setState chainKeeper ''B'' (stateName READY) =
       Return () (chainKeeper\<lparr>graph := (graph chainKeeper)\<lparr>vertexArray :=
          (vertexArray (graph chainKeeper))[i :=
             (vertexArray (graph chainKeeper) ! i)\<lparr>v_state := READY\<rparr>]\<rparr>\<rparr>)"
    by auto
  then have "i = 1"
    by (auto simp: chainKeeper_def chainABC_eq nth_Cons less_Suc_eq split: nat.splits)
  with wf has eq show ?thesis by simp
qed

end
